theory Spec2Isabelle
  imports Main "HOL-Library.Tree" "HOL-Library.Multiset" "HOL-Library.Word"
begin

section \<open>Memory model\<close>

text \<open>
  The program works on heap-allocated nodes linked by raw pointers and rewires them in
  place. A pointer is \<open>None\<close> (the null pointer) or \<open>Some a\<close> for an address \<open>a\<close>. The
  heap is a list of cells indexed by address: \<open>Some nd\<close> for a live node, \<open>None\<close> for a
  deleted one; \<open>new\<close> takes the next address past the end of the list.
\<close>

type_synonym ptr = "nat option"

text \<open>
  \<open>class Node\<close>: the two elements of the child array \<open>c_[2]\<close> are the fields \<open>c_0\<close> and
  \<open>c_1\<close>, and \<open>k_\<close> and \<open>v_\<close> are \<open>k_of\<close> and \<open>v_of\<close>. The array is read by \<open>c_of nd i\<close>
  for \<open>nd.c_[i]\<close> and written by \<open>set_c nd i q\<close> for \<open>nd.c_[i] = q\<close>; the program uses
  no index but 0 and 1.
\<close>

record ('k, 'v) node =
  c_0 :: ptr
  c_1 :: ptr
  k_of :: 'k
  v_of :: 'v

definition c_of :: "('k, 'v) node \<Rightarrow> nat \<Rightarrow> ptr" where
  "c_of nd i = (if i = 0 then c_0 nd else c_1 nd)"

definition set_c :: "('k, 'v) node \<Rightarrow> nat \<Rightarrow> ptr \<Rightarrow> ('k, 'v) node" where
  "set_c nd i q = (if i = 0 then nd\<lparr>c_0 := q\<rparr> else nd\<lparr>c_1 := q\<rparr>)"

type_synonym ('k, 'v) heap = "('k, 'v) node option list"

text \<open>
  What C++ leaves undefined is a fault of the model: a null or dangling pointer that is
  dereferenced. The recursive functions and the \<open>while\<close> statements run on a heap
  that may hold a cycle, so each takes a bound \<open>f\<close> on the depth of its recursion or
  the number of its iterations, and ends in \<open>OutOfFuel\<close> when the bound is reached.
\<close>

datatype fault = NullDeref | Dangling | OutOfFuel

definition bnd :: "fault + 'a \<Rightarrow> ('a \<Rightarrow> fault + 'b) \<Rightarrow> fault + 'b" where
  "bnd m g = (case m of Inl e \<Rightarrow> Inl e | Inr x \<Rightarrow> g x)"

definition cell :: "('k, 'v) heap \<Rightarrow> nat \<Rightarrow> ('k, 'v) node option" where
  "cell h a = (if a < length h then h ! a else None)"

text \<open>\<open>*p\<close>: the node a pointer refers to.\<close>

definition deref :: "('k, 'v) heap \<Rightarrow> ptr \<Rightarrow> fault + ('k, 'v) node" where
  "deref h p =
     (case p of
        None \<Rightarrow> Inl NullDeref
      | Some a \<Rightarrow> (case cell h a of None \<Rightarrow> Inl Dangling | Some nd \<Rightarrow> Inr nd))"

text \<open>\<open>p->c_[i] = q\<close>.\<close>

definition wr_c :: "('k, 'v) heap \<Rightarrow> ptr \<Rightarrow> nat \<Rightarrow> ptr \<Rightarrow> fault + ('k, 'v) heap" where
  "wr_c h p i q =
     (case p of
        None \<Rightarrow> Inl NullDeref
      | Some a \<Rightarrow>
          bnd (deref h p) (\<lambda>nd.
            Inr (h[a := Some (set_c nd i q)])))"

text \<open>\<open>new Node(k, v)\<close>: both children null.\<close>

definition new_node :: "('k, 'v) heap \<Rightarrow> 'k \<Rightarrow> 'v \<Rightarrow> ptr \<times> ('k, 'v) heap" where
  "new_node h k v = (Some (length h), h @ [Some \<lparr>c_0 = None, c_1 = None, k_of = k, v_of = v\<rparr>])"

text \<open>\<open>delete p\<close> for a non-null \<open>p\<close>.\<close>

definition delete_node :: "('k, 'v) heap \<Rightarrow> ptr \<Rightarrow> fault + ('k, 'v) heap" where
  "delete_node h p =
     (case p of
        None \<Rightarrow> Inl NullDeref
      | Some a \<Rightarrow> bnd (deref h p) (\<lambda>_. Inr (h[a := None])))"

section \<open>The node operations of class SplayTree\<close>

text \<open>
  The last three statements of the recursive \<open>Find\<close>:
  \<open>c = p; p->c_[i] = n->c_[1-i]; p = n; return c;\<close>.
  The result is the returned pointer, the new value of the reference \<open>p\<close> and the heap.
\<close>

definition Find_up ::
  "('k, 'v) heap \<Rightarrow> ptr \<Rightarrow> ptr \<Rightarrow> nat \<Rightarrow> fault + (ptr \<times> ptr \<times> ('k, 'v) heap)" where
  "Find_up h n p i =
     bnd (deref h n) (\<lambda>nd.
     bnd (wr_c h p i (c_of nd (1 - i))) (\<lambda>h'.
       Inr (p, n, h')))"

text \<open>
  The recursive \<open>Find(n, p, k, i)\<close>. The parameter \<open>n\<close> is a local copy; \<open>p\<close> is a
  reference to the caller's pointer variable, so its final value is returned. In the
  recursive call the local \<open>n\<close> is passed as \<open>p\<close> and comes back changed.
\<close>

fun Find_sub ::
  "nat \<Rightarrow> ('k::linorder, 'v) heap \<Rightarrow> ptr \<Rightarrow> ptr \<Rightarrow> 'k \<Rightarrow> nat
     \<Rightarrow> fault + (ptr \<times> ptr \<times> ('k, 'v) heap)" where
  "Find_sub 0 h n p k i = Inl OutOfFuel"
| "Find_sub (Suc f) h n p k i =
     (case n of
        None \<Rightarrow> Inr (None, p, h)
      | Some a \<Rightarrow>
          bnd (deref h n) (\<lambda>nd.
            if k \<noteq> k_of nd then
              (let j = (if k > k_of nd then 1 else 0) in
               bnd (Find_sub f h (c_of nd j) n k j) (\<lambda>(c, n', h').
                 if c = None then Inr (None, p, h')
                 else bnd (wr_c h' n' (1 - j) c) (\<lambda>h''. Find_up h'' n' p i)))
            else Find_up h n p i))"

text \<open>
  The entry point \<open>Find(n, k)\<close>; \<open>n\<close> is a reference to the root pointer. The result is
  the returned pointer, the new value of the root pointer and the heap.
\<close>

definition Find ::
  "nat \<Rightarrow> ('k::linorder, 'v) heap \<Rightarrow> ptr \<Rightarrow> 'k \<Rightarrow> fault + (ptr \<times> ptr \<times> ('k, 'v) heap)" where
  "Find f h n k =
     (case n of
        None \<Rightarrow> Inr (n, n, h)
      | Some a \<Rightarrow>
          bnd (deref h n) (\<lambda>nd.
            if k \<noteq> k_of nd then
              (let i = (if k > k_of nd then 1 else 0) in
               bnd (Find_sub f h (c_of nd i) n k i) (\<lambda>(c, n', h').
                 if c = None then Inr (None, n', h')
                 else bnd (wr_c h' n' (1 - i) c) (\<lambda>h''. Inr (n', n', h''))))
            else Inr (n, n, h)))"

text \<open>\<open>Add(n, k, v)\<close>: returns the root of the subtree after the insertion.\<close>

fun Add ::
  "nat \<Rightarrow> ('k::linorder, 'v) heap \<Rightarrow> ptr \<Rightarrow> 'k \<Rightarrow> 'v \<Rightarrow> fault + (ptr \<times> ('k, 'v) heap)" where
  "Add 0 h n k v = Inl OutOfFuel"
| "Add (Suc f) h n k v =
     (case n of
        None \<Rightarrow> Inr (new_node h k v)
      | Some a \<Rightarrow>
          bnd (deref h n) (\<lambda>nd.
            let i = (if k_of nd \<le> k then 1 else 0) in
            bnd (Add f h (c_of nd i) k v) (\<lambda>(c, h').
            bnd (wr_c h' n i c) (\<lambda>h''.
              Inr (n, h'')))))"

text \<open>
  The iteration \<open>while (c->c_[i]) { p = c; c = c->c_[i]; }\<close> on the pair \<open>(p, c)\<close>; one unit
  of fuel for each run of the body. \<open>DeleteRoot\<close> uses it with \<open>i = 0\<close>; \<open>min_key\<close> and
  \<open>max_key\<close> use it with \<open>i = 0\<close> and \<open>i = 1\<close> and ignore \<open>p\<close>.
\<close>

fun descend ::
  "nat \<Rightarrow> ('k, 'v) heap \<Rightarrow> nat \<Rightarrow> ptr \<Rightarrow> ptr \<Rightarrow> fault + (ptr \<times> ptr)" where
  "descend f h i p c =
     bnd (deref h c) (\<lambda>nd.
       if c_of nd i \<noteq> None then
         (case f of 0 \<Rightarrow> Inl OutOfFuel | Suc g \<Rightarrow> descend g h i c (c_of nd i))
       else Inr (p, c))"

text \<open>\<open>DeleteRoot(n)\<close>: returns the root after the deletion.\<close>

definition DeleteRoot ::
  "nat \<Rightarrow> ('k, 'v) heap \<Rightarrow> ptr \<Rightarrow> fault + (ptr \<times> ('k, 'v) heap)" where
  "DeleteRoot f h n =
     (if n = None then Inr (None, h)
      else
        bnd (deref h n) (\<lambda>nd.
        bnd (if c_of nd 1 \<noteq> None then
               bnd (descend f h 0 None (c_of nd 1)) (\<lambda>(p, c).
               bnd (if p \<noteq> None then
                      bnd (deref h c) (\<lambda>cd.
                      bnd (wr_c h p 0 (c_of cd 1)) (\<lambda>h1.
                      bnd (deref h1 n) (\<lambda>nd1.
                        wr_c h1 c 1 (c_of nd1 1))))
                    else Inr h) (\<lambda>h2.
               bnd (deref h2 n) (\<lambda>nd2.
               bnd (wr_c h2 c 0 (c_of nd2 0)) (\<lambda>h3.
                 Inr (c, h3)))))
             else Inr (c_of nd 0, h)) (\<lambda>(c, h4).
        bnd (delete_node h4 n) (\<lambda>h5.
          Inr (c, h5)))))"

section \<open>The node operations of the standalone class Node\<close>

text \<open>
  The second copy of the node class, outside \<open>SplayTree\<close>. Its recursive \<open>Find\<close> has
  one more parameter, the flag \<open>bool& r\<close>, and signals a miss through it:
  \<open>if (!r) return n;\<close>. The result is the returned pointer, the new values of \<open>p\<close>
  and \<open>r\<close>, and the heap.
\<close>

fun Node_Find_sub ::
  "nat \<Rightarrow> ('k::linorder, 'v) heap \<Rightarrow> ptr \<Rightarrow> ptr \<Rightarrow> 'k \<Rightarrow> nat \<Rightarrow> bool
     \<Rightarrow> fault + (ptr \<times> ptr \<times> bool \<times> ('k, 'v) heap)" where
  "Node_Find_sub 0 h n p k i r = Inl OutOfFuel"
| "Node_Find_sub (Suc f) h n p k i r =
     (case n of
        None \<Rightarrow> Inr (None, p, r, h)
      | Some a \<Rightarrow>
          bnd (deref h n) (\<lambda>nd.
            if k \<noteq> k_of nd then
              (let j = (if k > k_of nd then 1 else 0) in
               bnd (Node_Find_sub f h (c_of nd j) n k j r) (\<lambda>(c, n', r', h').
                 if \<not> r' then Inr (n', p, r', h')
                 else
                   bnd (wr_c h' n' (1 - j) c) (\<lambda>h''.
                   bnd (Find_up h'' n' p i) (\<lambda>(c', p', h3).
                     Inr (c', p', r', h3)))))
            else
              bnd (Find_up h n p i) (\<lambda>(c', p', h3).
                Inr (c', p', True, h3))))"

text \<open>The entry point starts with \<open>bool r(false)\<close> and returns null when \<open>r\<close> stays false.\<close>

definition Node_Find ::
  "nat \<Rightarrow> ('k::linorder, 'v) heap \<Rightarrow> ptr \<Rightarrow> 'k \<Rightarrow> fault + (ptr \<times> ptr \<times> ('k, 'v) heap)" where
  "Node_Find f h n k =
     (case n of
        None \<Rightarrow> Inr (n, n, h)
      | Some a \<Rightarrow>
          bnd (deref h n) (\<lambda>nd.
            if k \<noteq> k_of nd then
              (let i = (if k > k_of nd then 1 else 0) in
               bnd (Node_Find_sub f h (c_of nd i) n k i False) (\<lambda>(c, n', r, h').
                 if \<not> r then Inr (None, n', h')
                 else bnd (wr_c h' n' (1 - i) c) (\<lambda>h''. Inr (n', n', h''))))
            else Inr (n, n, h)))"

fun Node_Add ::
  "nat \<Rightarrow> ('k::linorder, 'v) heap \<Rightarrow> ptr \<Rightarrow> 'k \<Rightarrow> 'v \<Rightarrow> fault + (ptr \<times> ('k, 'v) heap)" where
  "Node_Add 0 h n k v = Inl OutOfFuel"
| "Node_Add (Suc f) h n k v =
     (case n of
        None \<Rightarrow> Inr (new_node h k v)
      | Some a \<Rightarrow>
          bnd (deref h n) (\<lambda>nd.
            let i = (if k_of nd \<le> k then 1 else 0) in
            bnd (Node_Add f h (c_of nd i) k v) (\<lambda>(c, h').
            bnd (wr_c h' n i c) (\<lambda>h''.
              Inr (n, h'')))))"

definition Node_DeleteRoot ::
  "nat \<Rightarrow> ('k, 'v) heap \<Rightarrow> ptr \<Rightarrow> fault + (ptr \<times> ('k, 'v) heap)" where
  "Node_DeleteRoot f h n =
     (if n = None then Inr (None, h)
      else
        bnd (deref h n) (\<lambda>nd.
        bnd (if c_of nd 1 \<noteq> None then
               bnd (descend f h 0 None (c_of nd 1)) (\<lambda>(p, c).
               bnd (if p \<noteq> None then
                      bnd (deref h c) (\<lambda>cd.
                      bnd (wr_c h p 0 (c_of cd 1)) (\<lambda>h1.
                      bnd (deref h1 n) (\<lambda>nd1.
                        wr_c h1 c 1 (c_of nd1 1))))
                    else Inr h) (\<lambda>h2.
               bnd (deref h2 n) (\<lambda>nd2.
               bnd (wr_c h2 c 0 (c_of nd2 0)) (\<lambda>h3.
                 Inr (c, h3)))))
             else Inr (c_of nd 0, h)) (\<lambda>(c, h4).
        bnd (delete_node h4 n) (\<lambda>h5.
          Inr (c, h5)))))"

section \<open>The handle: class SplayTree\<close>

text \<open>
  The fields \<open>tree_\<close> and \<open>length_\<close> (a \<open>size_t\<close>, here of 64 bits) are \<open>tree_of\<close> and
  \<open>length_of\<close>. The template parameters \<open>INVALID_K\<close> and \<open>INVALID_V\<close> are arguments of
  the operations that return them. The constructor gives the empty handle.
\<close>

record splay =
  tree_of :: ptr
  length_of :: "64 word"

definition SplayTree :: splay where
  "SplayTree = \<lparr>tree_of = None, length_of = 0\<rparr>"

definition add ::
  "nat \<Rightarrow> ('k::linorder, 'v) heap \<Rightarrow> splay \<Rightarrow> 'k \<Rightarrow> 'v \<Rightarrow> fault + (('k, 'v) heap \<times> splay)" where
  "add f h s key val =
     bnd (Add f h (tree_of s) key val) (\<lambda>(t, h').
       Inr (h', s\<lparr>tree_of := t, length_of := length_of s + 1\<rparr>))"

text \<open>
  \<open>remove\<close> and \<open>find\<close> (here \<open>find_h\<close>) return the value, the heap and the handle.
  \<open>Find\<close> takes \<open>tree_\<close> by reference, so the handle keeps the root pointer that \<open>Find\<close>
  leaves.
\<close>

definition remove ::
  "'v \<Rightarrow> nat \<Rightarrow> ('k::linorder, 'v) heap \<Rightarrow> splay \<Rightarrow> 'k
     \<Rightarrow> fault + ('v \<times> ('k, 'v) heap \<times> splay)" where
  "remove INVALID_V f h s key =
     bnd (Find f h (tree_of s) key) (\<lambda>(node, t, h1).
       if node \<noteq> None then
         bnd (deref h1 node) (\<lambda>nd.
         bnd (DeleteRoot f h1 t) (\<lambda>(t', h2).
           Inr (v_of nd, h2, s\<lparr>tree_of := t', length_of := length_of s - 1\<rparr>)))
       else Inr (INVALID_V, h1, s\<lparr>tree_of := t\<rparr>))"

definition find_h ::
  "'v \<Rightarrow> nat \<Rightarrow> ('k::linorder, 'v) heap \<Rightarrow> splay \<Rightarrow> 'k
     \<Rightarrow> fault + ('v \<times> ('k, 'v) heap \<times> splay)" where
  "find_h INVALID_V f h s key =
     bnd (Find f h (tree_of s) key) (\<lambda>(node, t, h1).
       if node \<noteq> None then
         bnd (deref h1 node) (\<lambda>nd. Inr (v_of nd, h1, s\<lparr>tree_of := t\<rparr>))
       else Inr (INVALID_V, h1, s\<lparr>tree_of := t\<rparr>))"

definition root_key :: "'k \<Rightarrow> ('k, 'v) heap \<Rightarrow> splay \<Rightarrow> fault + 'k" where
  "root_key INVALID_K h s =
     (if tree_of s \<noteq> None then Inr INVALID_K
      else bnd (deref h (tree_of s)) (\<lambda>nd. Inr (k_of nd)))"

definition min_key :: "'k \<Rightarrow> nat \<Rightarrow> ('k, 'v) heap \<Rightarrow> splay \<Rightarrow> fault + 'k" where
  "min_key INVALID_K f h s =
     (if tree_of s \<noteq> None then Inr INVALID_K
      else
        bnd (descend f h 0 None (tree_of s)) (\<lambda>(_, node).
        bnd (deref h node) (\<lambda>nd. Inr (k_of nd))))"

definition max_key :: "'k \<Rightarrow> nat \<Rightarrow> ('k, 'v) heap \<Rightarrow> splay \<Rightarrow> fault + 'k" where
  "max_key INVALID_K f h s =
     (if tree_of s \<noteq> None then Inr INVALID_K
      else
        bnd (descend f h 1 None (tree_of s)) (\<lambda>(_, node).
        bnd (deref h node) (\<lambda>nd. Inr (k_of nd))))"

definition size_h :: "splay \<Rightarrow> 64 word" where
  "size_h s = length_of s"

section \<open>Sequences of calls\<close>

text \<open>
  The two \<open>main\<close> functions repeat a call: \<open>st = Add(st, values[i], i)\<close> on a root
  pointer, and \<open>st.add(values[i], i)\<close> on a handle.
\<close>

fun Adds ::
  "nat \<Rightarrow> ('k::linorder, 'v) heap \<Rightarrow> ptr \<Rightarrow> ('k \<times> 'v) list
     \<Rightarrow> fault + (ptr \<times> ('k, 'v) heap)" where
  "Adds f h n [] = Inr (n, h)"
| "Adds f h n ((k, v) # kvs) = bnd (Add f h n k v) (\<lambda>(n', h'). Adds f h' n' kvs)"

fun add_all ::
  "nat \<Rightarrow> ('k::linorder, 'v) heap \<Rightarrow> splay \<Rightarrow> ('k \<times> 'v) list
     \<Rightarrow> fault + (('k, 'v) heap \<times> splay)" where
  "add_all f h s [] = Inr (h, s)"
| "add_all f h s ((k, v) # kvs) = bnd (add f h s k v) (\<lambda>(h', s'). add_all f h' s' kvs)"

text \<open>Any sequence of calls on a handle; the values returned are dropped.\<close>

datatype ('k, 'v) call = CallAdd 'k 'v | CallFind 'k | CallRemove 'k

fun run_call ::
  "'v \<Rightarrow> nat \<Rightarrow> ('k::linorder, 'v) heap \<Rightarrow> splay \<Rightarrow> ('k, 'v) call
     \<Rightarrow> fault + (('k, 'v) heap \<times> splay)" where
  "run_call INVALID_V f h s (CallAdd k v) = add f h s k v"
| "run_call INVALID_V f h s (CallFind k) =
     bnd (find_h INVALID_V f h s k) (\<lambda>(_, h', s'). Inr (h', s'))"
| "run_call INVALID_V f h s (CallRemove k) =
     bnd (remove INVALID_V f h s k) (\<lambda>(_, h', s'). Inr (h', s'))"

fun run_calls ::
  "'v \<Rightarrow> nat \<Rightarrow> ('k::linorder, 'v) heap \<Rightarrow> splay \<Rightarrow> ('k, 'v) call list
     \<Rightarrow> fault + (('k, 'v) heap \<times> splay)" where
  "run_calls INVALID_V f h s [] = Inr (h, s)"
| "run_calls INVALID_V f h s (c # cs) =
     bnd (run_call INVALID_V f h s c) (\<lambda>(h', s'). run_calls INVALID_V f h' s' cs)"

section \<open>The tree a pointer stands for\<close>

text \<open>
  A binary tree of triples (address, key, value) describes the nodes reachable from a
  pointer: \<open>tree_at h p t\<close> holds when \<open>p\<close> is null and \<open>t\<close> is a leaf, or \<open>p\<close> points
  to a live node with the key and value of the root of \<open>t\<close> whose two children stand
  for the two subtrees. The nodes form a tree, without sharing, when the addresses in
  \<open>t\<close> are distinct.
\<close>

fun root_ptr :: "(nat \<times> 'k \<times> 'v) tree \<Rightarrow> ptr" where
  "root_ptr Leaf = None"
| "root_ptr (Node l (a, k, v) r) = Some a"

fun tree_at :: "('k, 'v) heap \<Rightarrow> ptr \<Rightarrow> (nat \<times> 'k \<times> 'v) tree \<Rightarrow> bool" where
  "tree_at h p Leaf = (p = None)"
| "tree_at h p (Node l (a, k, v) r) =
     (p = Some a \<and>
      (case cell h a of
         None \<Rightarrow> False
       | Some nd \<Rightarrow>
           k_of nd = k \<and> v_of nd = v \<and> tree_at h (c_of nd 0) l \<and> tree_at h (c_of nd 1) r))"

text \<open>The addresses, the keys and the (key, value) pairs of a tree, in in-order.\<close>

definition addrs :: "(nat \<times> 'k \<times> 'v) tree \<Rightarrow> nat list" where
  "addrs t = map fst (inorder t)"

definition keys :: "(nat \<times> 'k \<times> 'v) tree \<Rightarrow> 'k list" where
  "keys t = map (\<lambda>(a, k, v). k) (inorder t)"

definition pairs :: "(nat \<times> 'k \<times> 'v) tree \<Rightarrow> ('k \<times> 'v) list" where
  "pairs t = map snd (inorder t)"

text \<open>
  The first pair with the key \<open>k\<close> in in-order, if there is one; and the property that no
  node with the key \<open>k\<close> has the key \<open>k\<close> in its left subtree.
\<close>

definition first_pair :: "'k \<Rightarrow> (nat \<times> 'k \<times> 'v) tree \<Rightarrow> ('k \<times> 'v) option" where
  "first_pair k t = List.find (\<lambda>e. fst e = k) (pairs t)"

fun no_left :: "'k \<Rightarrow> (nat \<times> 'k \<times> 'v) tree \<Rightarrow> bool" where
  "no_left k Leaf = True"
| "no_left k (Node l (a, x, v) r) =
     ((x = k \<longrightarrow> k \<notin> set (keys l)) \<and> no_left k l \<and> no_left k r)"

text \<open>
  A handle is valid for a tree when its root pointer stands for it, no node is shared
  and the keys are in non-decreasing order.
\<close>

definition valid :: "('k::linorder, 'v) heap \<Rightarrow> splay \<Rightarrow> (nat \<times> 'k \<times> 'v) tree \<Rightarrow> bool" where
  "valid h s t \<longleftrightarrow> tree_at h (tree_of s) t \<and> distinct (addrs t) \<and> sorted (keys t)"

text \<open>
  Two heaps hold the same nodes when every address is live in both or in neither, with
  the same key and value; only child pointers may differ.
\<close>

definition same_nodes :: "('k, 'v) heap \<Rightarrow> ('k, 'v) heap \<Rightarrow> bool" where
  "same_nodes h h' \<longleftrightarrow>
     length h' = length h \<and>
     (\<forall>a < length h. map_option (\<lambda>nd. (k_of nd, v_of nd)) (h' ! a) =
                      map_option (\<lambda>nd. (k_of nd, v_of nd)) (h ! a))"

section \<open>What the operations do to the tree\<close>

text \<open>
  The functions of this section work on trees, not on the heap. They say what the
  pointer operations compute; the lemmas \<open>Find_spec\<close>, \<open>Add_spec\<close> and
  \<open>DeleteRoot_spec\<close> below prove that they do.

  \<open>Find\<close> on a tree: the first node with the key on the search path comes to the
  root, by one rotation with its parent at each level on the way back.
\<close>

fun to_root :: "'k::linorder \<Rightarrow> (nat \<times> 'k \<times> 'v) tree \<Rightarrow> (nat \<times> 'k \<times> 'v) tree option" where
  "to_root k Leaf = None"
| "to_root k (Node l (a, x, v) r) =
     (if k = x then Some (Node l (a, x, v) r)
      else if k > x then
        (case to_root k r of
           Some (Node rl y rr) \<Rightarrow> Some (Node (Node l (a, x, v) rl) y rr)
         | _ \<Rightarrow> None)
      else
        (case to_root k l of
           Some (Node ll y lr) \<Rightarrow> Some (Node ll y (Node lr (a, x, v) r))
         | _ \<Rightarrow> None))"

text \<open>The node at which the search for \<open>k\<close> stops.\<close>

fun search :: "'k::linorder \<Rightarrow> (nat \<times> 'k \<times> 'v) tree \<Rightarrow> (nat \<times> 'k \<times> 'v) option" where
  "search k Leaf = None"
| "search k (Node l (a, x, v) r) =
     (if k = x then Some (a, x, v) else search k (if k > x then r else l))"

text \<open>A single rotation of an edge, anywhere in a tree.\<close>

inductive rot_step :: "'a tree \<Rightarrow> 'a tree \<Rightarrow> bool" where
  rot_right: "rot_step (Node (Node A x B) y C) (Node A x (Node B y C))"
| rot_left: "rot_step (Node A x (Node B y C)) (Node (Node A x B) y C)"
| in_left: "rot_step l l' \<Longrightarrow> rot_step (Node l x r) (Node l' x r)"
| in_right: "rot_step r r' \<Longrightarrow> rot_step (Node l x r) (Node l x r')"

text \<open>The number of levels the search for \<open>k\<close> goes down before it stops.\<close>

fun search_depth :: "'k::linorder \<Rightarrow> (nat \<times> 'k \<times> 'v) tree \<Rightarrow> nat" where
  "search_depth k Leaf = 0"
| "search_depth k (Node l (a, x, v) r) =
     (if k = x then 0 else Suc (search_depth k (if k > x then r else l)))"

text \<open>\<open>Add\<close> on a tree: the new triple \<open>e\<close> becomes a leaf.\<close>

fun ins :: "nat \<times> 'k::linorder \<times> 'v \<Rightarrow> (nat \<times> 'k \<times> 'v) tree \<Rightarrow> (nat \<times> 'k \<times> 'v) tree" where
  "ins e Leaf = Node Leaf e Leaf"
| "ins e (Node l (a, x, w) r) =
     (if x \<le> fst (snd e) then Node l (a, x, w) (ins e r) else Node (ins e l) (a, x, w) r)"

text \<open>
  \<open>DeleteRoot\<close> on a tree. \<open>split_left l x r\<close> is the leftmost entry of the non-empty
  tree \<open>Node l x r\<close> and that tree with the entry's right subtree in the entry's place.
  Without a right child the left child becomes the root; otherwise the leftmost entry
  of the right subtree does, over the old left subtree and the rest of the right one.
\<close>

fun split_left :: "'a tree \<Rightarrow> 'a \<Rightarrow> 'a tree \<Rightarrow> 'a \<times> 'a tree" where
  "split_left Leaf x r = (x, r)"
| "split_left (Node ll y lr) x r = (let (m, l') = split_left ll y lr in (m, Node l' x r))"

fun delete_root :: "'a tree \<Rightarrow> 'a tree" where
  "delete_root Leaf = Leaf"
| "delete_root (Node l x Leaf) = l"
| "delete_root (Node l x (Node rl y rr)) = (let (m, r') = split_left rl y rr in Node l m r')"

text \<open>
  The order between a node and its subtrees, as the specification words it (\<open>\<le>\<close> on
  the left, \<open><\<close> on the right), and as \<open>Add\<close> keeps it (\<open><\<close> on the left, \<open>\<le>\<close> on the
  right).
\<close>

fun spec_ordered :: "(nat \<times> 'k::linorder \<times> 'v) tree \<Rightarrow> bool" where
  "spec_ordered Leaf = True"
| "spec_ordered (Node l (a, k, v) r) =
     ((\<forall>x \<in> set (keys l). x \<le> k) \<and> (\<forall>x \<in> set (keys r). k < x) \<and>
      spec_ordered l \<and> spec_ordered r)"

fun ordered :: "(nat \<times> 'k::linorder \<times> 'v) tree \<Rightarrow> bool" where
  "ordered Leaf = True"
| "ordered (Node l (a, k, v) r) =
     ((\<forall>x \<in> set (keys l). x < k) \<and> (\<forall>x \<in> set (keys r). k \<le> x) \<and> ordered l \<and> ordered r)"

section \<open>Sample heaps\<close>

text \<open>The tree with root 5, children 2 and 8, and 3 as the right child of 2.\<close>

definition ex_heap :: "(nat, nat) heap" where
  "ex_heap =
     [Some \<lparr>c_0 = Some 1, c_1 = Some 2, k_of = 5, v_of = 50\<rparr>,
      Some \<lparr>c_0 = None, c_1 = Some 3, k_of = 2, v_of = 20\<rparr>,
      Some \<lparr>c_0 = None, c_1 = None, k_of = 8, v_of = 80\<rparr>,
      Some \<lparr>c_0 = None, c_1 = None, k_of = 3, v_of = 30\<rparr>]"

definition ex_tree :: "(nat \<times> nat \<times> nat) tree" where
  "ex_tree =
     Node (Node Leaf (1, 2, 20) (Node Leaf (3, 3, 30) Leaf)) (0, 5, 50) (Node Leaf (2, 8, 80) Leaf)"

definition ex_handle :: splay where
  "ex_handle = \<lparr>tree_of = Some 0, length_of = 4\<rparr>"

text \<open>The sample heap after \<open>Find\<close> has brought the key 2 to the root.\<close>

definition ex_heap2 :: "(nat, nat) heap" where
  "ex_heap2 =
     [Some \<lparr>c_0 = Some 3, c_1 = Some 2, k_of = 5, v_of = 50\<rparr>,
      Some \<lparr>c_0 = None, c_1 = Some 0, k_of = 2, v_of = 20\<rparr>,
      Some \<lparr>c_0 = None, c_1 = None, k_of = 8, v_of = 80\<rparr>,
      Some \<lparr>c_0 = None, c_1 = None, k_of = 3, v_of = 30\<rparr>]"

text \<open>The heap after adding the key 5 twice, with the values 1 and 2.\<close>

definition dup_heap :: "(nat, nat) heap" where
  "dup_heap =
     [Some \<lparr>c_0 = None, c_1 = Some 1, k_of = 5, v_of = 1\<rparr>,
      Some \<lparr>c_0 = None, c_1 = None, k_of = 5, v_of = 2\<rparr>]"

definition dup_tree :: "(nat \<times> nat \<times> nat) tree" where
  "dup_tree = Node Leaf (0, 5, 1) (Node Leaf (1, 5, 2) Leaf)"

section \<open>Facts of the memory model\<close>

lemma bnd_Inl [simp]: "bnd (Inl e) g = Inl e"
  by (simp add: bnd_def)

lemma bnd_Inr [simp]: "bnd (Inr x) g = g x"
  by (simp add: bnd_def)

lemma bnd_eq_Inr: "bnd m g = Inr y \<longleftrightarrow> (\<exists>x. m = Inr x \<and> g x = Inr y)"
  by (cases m) auto

lemma c_of_set_c [simp]:
  "c_of (set_c nd i q) i = q"
  "c_of (set_c nd 0 q) (Suc 0) = c_of nd (Suc 0)"
  "c_of (set_c nd (Suc 0) q) 0 = c_of nd 0"
  "k_of (set_c nd i q) = k_of nd"
  "v_of (set_c nd i q) = v_of nd"
  by (simp_all add: c_of_def set_c_def)

lemma c_of_node [simp]:
  "c_of \<lparr>c_0 = a, c_1 = b, k_of = k, v_of = v\<rparr> i = (if i = 0 then a else b)"
  by (simp add: c_of_def)

lemma set_c_node [simp]:
  "set_c \<lparr>c_0 = a, c_1 = b, k_of = k, v_of = v\<rparr> i q =
     (if i = 0 then \<lparr>c_0 = q, c_1 = b, k_of = k, v_of = v\<rparr>
      else \<lparr>c_0 = a, c_1 = q, k_of = k, v_of = v\<rparr>)"
  by (simp add: set_c_def)

lemma deref_None [simp]: "deref h None = Inl NullDeref"
  by (simp add: deref_def)

lemma cell_update [simp]:
  "cell (h[a := x]) b = (if b = a \<and> a < length h then x else cell h b)"
  by (auto simp: cell_def)

lemma cell_Some_length: "cell h a = Some nd \<Longrightarrow> a < length h"
  by (auto simp: cell_def split: if_splits)

lemma cell_append [simp]:
  "cell (h @ [x]) b = (if b = length h then x else cell h b)"
  by (auto simp: cell_def nth_append)

lemma deref_cell [simp]: "cell h a = Some nd \<Longrightarrow> deref h (Some a) = Inr nd"
  by (simp add: deref_def)

lemma deref_Inr: "deref h p = Inr nd \<longleftrightarrow> (\<exists>a. p = Some a \<and> cell h a = Some nd)"
  by (auto simp: deref_def split: option.splits)

lemma wr_c_cell [simp]:
  "cell h a = Some nd \<Longrightarrow>
   wr_c h (Some a) i q = Inr (h[a := Some (set_c nd i q)])"
  by (simp add: wr_c_def)

declare descend.simps [simp del]

lemma descend_None [simp]: "descend f h i p None = Inl NullDeref"
  by (subst descend.simps) simp

lemma descend_Leaf:
  "cell h a = Some nd \<Longrightarrow> c_of nd i = None \<Longrightarrow> descend f h i p (Some a) = Inr (p, Some a)"
  by (subst descend.simps) simp

lemma descend_Node:
  "cell h a = Some nd \<Longrightarrow> c_of nd i = Some b \<Longrightarrow>
   descend (Suc g) h i p (Some a) = descend g h i (Some a) (Some b)"
  by (subst descend.simps) simp

section \<open>Trees in the heap\<close>

text \<open>
  A write to an address outside a tree leaves the tree as it is; the proofs about the
  pointer operations rest on this.
\<close>

lemma addrs_simps [simp]:
  "addrs Leaf = []"
  "addrs (Node l x r) = addrs l @ fst x # addrs r"
  by (simp_all add: addrs_def)

lemma keys_simps [simp]:
  "keys Leaf = []"
  "keys (Node l (a, k, v) r) = keys l @ k # keys r"
  by (simp_all add: keys_def)

lemma keys_pairs: "keys t = map fst (pairs t)"
  by (simp add: keys_def pairs_def split_def)

lemma height_le_size: "height (t :: 'a tree) \<le> size t"
  by (induction t) auto

lemma size_inorder_eq: "inorder t' = inorder t \<Longrightarrow> size t' = size (t :: 'a tree)"
  by (metis length_inorder)

lemma tree_at_root: "tree_at h p t \<Longrightarrow> p = root_ptr t"
  by (cases t) auto

lemma tree_at_frame:
  "tree_at h p t \<Longrightarrow> (\<forall>a \<in> set (addrs t). cell h' a = cell h a) \<Longrightarrow> tree_at h' p t"
proof (induction t arbitrary: p)
  case Leaf
  then show ?case by simp
next
  case (Node l x r)
  obtain a k v where x: "x = (a, k, v)" by (cases x)
  from Node.prems show ?case
    by (auto simp: x split: option.splits intro: Node.IH)
qed

lemma tree_at_update:
  "tree_at h p t \<Longrightarrow> a \<notin> set (addrs t) \<Longrightarrow> tree_at (h[a := x]) p t"
  by (erule tree_at_frame) auto

lemma tree_at_addrs_lt: "tree_at h p t \<Longrightarrow> a \<in> set (addrs t) \<Longrightarrow> a < length h"
proof (induction t arbitrary: p)
  case Leaf
  then show ?case by simp
next
  case (Node l x r)
  obtain b k v where x: "x = (b, k, v)" by (cases x)
  from Node.prems show ?case
    by (auto simp: x split: option.splits dest: cell_Some_length Node.IH)
qed

lemma tree_at_cell:
  "tree_at h p t \<Longrightarrow> (b, k, v) \<in> set_tree t \<Longrightarrow>
   \<exists>nd. cell h b = Some nd \<and> k_of nd = k \<and> v_of nd = v"
proof (induction t arbitrary: p)
  case Leaf
  then show ?case by simp
next
  case (Node l x r)
  obtain a y w where x: "x = (a, y, w)" by (cases x)
  from Node.prems show ?case
    by (auto simp: x split: option.splits dest: Node.IH)
qed

section \<open>Search on trees\<close>

lemma to_root_Node: "to_root k t = Some t' \<Longrightarrow> \<exists>l a v r. t' = Node l (a, k, v) r"
proof (induction t arbitrary: t')
  case Leaf
  then show ?case by simp
next
  case (Node l x r)
  obtain a y v where x: "x = (a, y, v)" by (cases x)
  from Node.prems show ?case
    by (auto simp: x split: if_splits option.splits tree.splits dest: Node.IH)
qed

lemma to_root_inorder: "to_root k t = Some t' \<Longrightarrow> inorder t' = inorder t"
proof (induction t arbitrary: t')
  case Leaf
  then show ?case by simp
next
  case (Node l x r)
  obtain a y v where x: "x = (a, y, v)" by (cases x)
  from Node.prems show ?case
    by (auto simp: x split: if_splits option.splits tree.splits dest: Node.IH)
qed

lemma to_root_addrs: "to_root k t = Some t' \<Longrightarrow> addrs t' = addrs t"
  by (simp add: addrs_def to_root_inorder)

lemma to_root_keys: "to_root k t = Some t' \<Longrightarrow> keys t' = keys t"
  by (simp add: keys_def to_root_inorder)

lemma to_root_search: "to_root k t = Some (Node l e r) \<Longrightarrow> search k t = Some e"
proof (induction t arbitrary: l e r)
  case Leaf
  then show ?case by simp
next
  case (Node tl x tr)
  obtain a y v where x: "x = (a, y, v)" by (cases x)
  from Node.prems show ?case
    by (auto simp: x split: if_splits option.splits tree.splits dest: Node.IH)
qed

lemma to_root_miss: "k \<notin> set (keys t) \<Longrightarrow> to_root k t = None"
proof (induction t)
  case Leaf
  then show ?case by simp
next
  case (Node l x r)
  obtain a y v where x: "x = (a, y, v)" by (cases x)
  from Node show ?case by (simp add: x)
qed

lemma to_root_hit:
  "sorted (keys t) \<Longrightarrow> k \<in> set (keys t) \<Longrightarrow> \<exists>t'. to_root k t = Some t'"
proof (induction t)
  case Leaf
  then show ?case by simp
next
  case (Node l x r)
  obtain a y v where x: "x = (a, y, v)" by (cases x)
  from Node.prems have sl: "sorted (keys l)" and sr: "sorted (keys r)"
    and le: "\<forall>z\<in>set (keys l). z \<le> y" and ge: "\<forall>z\<in>set (keys r). y \<le> z"
    by (auto simp: x sorted_append)
  show ?case
  proof (cases "k = y")
    case True
    then show ?thesis by (simp add: x)
  next
    case False
    show ?thesis
    proof (cases "y < k")
      case True
      with Node.prems le have "k \<in> set (keys r)" by (auto simp: x)
      from Node.IH(2)[OF sr this] obtain t'' where t'': "to_root k r = Some t''" by blast
      with to_root_Node[OF t''] True False show ?thesis by (auto simp: x)
    next
      case lt: False
      with False Node.prems ge have "k \<in> set (keys l)" by (auto simp: x)
      from Node.IH(1)[OF sl this] obtain t'' where t'': "to_root k l = Some t''" by blast
      with to_root_Node[OF t''] lt False show ?thesis by (auto simp: x)
    qed
  qed
qed

lemma rot_steps_right:
  "(rot_step ^^ d) r r' \<Longrightarrow> (rot_step ^^ d) (Node l x r) (Node l x r')"
proof (induction d arbitrary: r')
  case 0
  then show ?case by simp
next
  case (Suc d)
  then obtain m where "(rot_step ^^ d) r m" "rot_step m r'" by auto
  with Suc.IH show ?case by (auto intro: in_right)
qed

lemma rot_steps_left:
  "(rot_step ^^ d) l l' \<Longrightarrow> (rot_step ^^ d) (Node l x r) (Node l' x r)"
proof (induction d arbitrary: l')
  case 0
  then show ?case by simp
next
  case (Suc d)
  then obtain m where "(rot_step ^^ d) l m" "rot_step m l'" by auto
  with Suc.IH show ?case by (auto intro: in_left)
qed

lemma to_root_rotations:
  "to_root k t = Some t' \<Longrightarrow> (rot_step ^^ search_depth k t) t t'"
proof (induction t arbitrary: t')
  case Leaf
  then show ?case by simp
next
  case (Node l x r)
  obtain a y v where x: "x = (a, y, v)" by (cases x)
  show ?case
  proof (cases "k = y")
    case True
    with Node.prems have "t' = Node l (a, y, v) r" by (simp add: x)
    with True show ?thesis by (simp add: x)
  next
    case False
    show ?thesis
    proof (cases "y < k")
      case True
      with False Node.prems obtain rl z rr where r: "to_root k r = Some (Node rl z rr)"
        and t': "t' = Node (Node l (a, y, v) rl) z rr"
        by (auto simp: x split: option.splits tree.splits)
      from Node.IH(2)[OF r] have "(rot_step ^^ search_depth k r) (Node l x r) (Node l x (Node rl z rr))"
        by (rule rot_steps_right)
      moreover have "rot_step (Node l x (Node rl z rr)) t'"
        unfolding t' x by (rule rot_left)
      ultimately show ?thesis using True False by (auto simp: x)
    next
      case lt: False
      with False Node.prems obtain ll z lr where l: "to_root k l = Some (Node ll z lr)"
        and t': "t' = Node ll z (Node lr (a, y, v) r)"
        by (auto simp: x split: option.splits tree.splits)
      from Node.IH(1)[OF l] have "(rot_step ^^ search_depth k l) (Node l x r) (Node (Node ll z lr) x r)"
        by (rule rot_steps_left)
      moreover have "rot_step (Node (Node ll z lr) x r) t'"
        unfolding t' x by (rule rot_right)
      ultimately show ?thesis using lt False by (auto simp: x)
    qed
  qed
qed

section \<open>Find on the heap\<close>

text \<open>
  The recursive \<open>Find\<close> is called on a child \<open>n\<close> of the node \<open>pa\<close>. On a hit it leaves the
  subtree rotated, with the found node on top and returned through \<open>p\<close>, and stores in
  the child slot \<open>i\<close> of \<open>pa\<close> the subtree that \<open>pa\<close> takes over from the found node; the
  caller completes the rotation by linking \<open>pa\<close> under the found node.
\<close>

lemma Find_sub_spec:
  assumes "tree_at h n t" "distinct (addrs t)" "cell h pa = Some pnd" "pa \<notin> set (addrs t)"
    "height t < f" "i \<le> 1"
  shows "case to_root k t of
           None \<Rightarrow> Find_sub f h n (Some pa) k i = Inr (None, Some pa, h)
         | Some t' \<Rightarrow>
             \<exists>h'. Find_sub f h n (Some pa) k i = Inr (Some pa, root_ptr t', h') \<and>
               tree_at h' (root_ptr t') t' \<and>
               cell h' pa = Some (set_c pnd i (root_ptr (if i = 0 then right t' else left t'))) \<and>
               (\<forall>b. b \<notin> set (addrs t) \<longrightarrow> b \<noteq> pa \<longrightarrow> cell h' b = cell h b) \<and>
               length h' = length h"
  using assms
proof (induction t arbitrary: f h n pa pnd i)
  case Leaf
  then obtain g where "f = Suc g" by (cases f) auto
  with Leaf show ?case by simp
next
  case (Node L x R)
  obtain na y w where x: "x = (na, y, w)" by (cases x)
  from Node.prems obtain g where f: "f = Suc g" by (cases f) auto
  from Node.prems obtain nd where n: "n = Some na" and nd: "cell h na = Some nd"
    and ky: "k_of nd = y" and vw: "v_of nd = w"
    and tL: "tree_at h (c_of nd 0) L" and tR: "tree_at h (c_of nd 1) R"
    by (auto simp: x split: option.splits)
  from Node.prems have dL: "distinct (addrs L)" and dR: "distinct (addrs R)"
    and naL: "na \<notin> set (addrs L)" and naR: "na \<notin> set (addrs R)"
    and LR: "set (addrs L) \<inter> set (addrs R) = {}"
    and pa: "pa \<noteq> na" "pa \<notin> set (addrs L)" "pa \<notin> set (addrs R)"
    and hL: "height L < g" and hR: "height R < g"
    by (auto simp: x f)
  have i: "i = 0 \<or> i = 1" using Node.prems by auto
  have rL: "c_of nd 0 = root_ptr L" and rR: "c_of nd 1 = root_ptr R"
    using tL tR tree_at_root by blast+
  show ?case
  proof (cases "k = y")
    case True
    have "tree_at (h[pa := Some (set_c pnd i (c_of nd (1 - i)))]) (Some na)
            (Node L (na, y, w) R)"
      using Node.prems(1) pa by (intro tree_at_update) (auto simp: x n)
    with True i nd ky Node.prems(3) rL rR cell_Some_length[OF Node.prems(3)] show ?thesis
      by (auto simp: x n f Find_up_def)
  next
    case False
    show ?thesis
    proof (cases "y < k")
      case True
      note IH = Node.IH(2)[OF tR dR nd naR hR, of 1]
      show ?thesis
      proof (cases "to_root k R")
        case None
        with IH have "Find_sub g h (c_of nd 1) (Some na) k 1 = Inr (None, Some na, h)"
          by simp
        with None True False nd ky show ?thesis
          by (simp add: x n f)
      next
        case (Some t'')
        then obtain rl a v rr where t'': "t'' = Node rl (a, k, v) rr"
          using to_root_Node by blast
        from IH Some t'' obtain h1 where
          F1: "Find_sub g h (c_of nd 1) (Some na) k 1 = Inr (Some na, Some a, h1)" and
          T1: "tree_at h1 (Some a) (Node rl (a, k, v) rr)" and
          C1: "cell h1 na = Some (set_c nd 1 (root_ptr rl))" and
          Fr1: "\<forall>b. b \<notin> set (addrs R) \<longrightarrow> b \<noteq> na \<longrightarrow> cell h1 b = cell h b" and
          len1: "length h1 = length h"
          by auto
        from T1 obtain nda where nda: "cell h1 a = Some nda" "k_of nda = k" "v_of nda = v"
          and Trl: "tree_at h1 (c_of nda 0) rl" and Trr: "tree_at h1 (c_of nda 1) rr"
          by (auto split: option.splits)
        have aR: "addrs R = addrs rl @ a # addrs rr"
          using to_root_addrs[OF Some] by (simp add: t'')
        with dR naR pa LR naL have a: "a \<noteq> na" "a \<noteq> pa" "a \<notin> set (addrs L)"
          "a \<notin> set (addrs rl)" "a \<notin> set (addrs rr)"
          and sub: "pa \<notin> set (addrs rl)" "pa \<notin> set (addrs rr)"
          "na \<notin> set (addrs rl)" "na \<notin> set (addrs rr)"
          by auto
        have crl: "c_of nda 0 = root_ptr rl" and crr: "c_of nda 1 = root_ptr rr"
          using Trl Trr tree_at_root by blast+
        define nda2 where "nda2 = set_c nda 0 (Some na)"
        define h2 where "h2 = h1[a := Some nda2]"
        define h3 where "h3 = h2[pa := Some (set_c pnd i (c_of nda2 (1 - i)))]"
        have la: "a < length h1" "pa < length h1" "na < length h1"
          using nda(1) C1 Node.prems(3) len1 by (auto dest: cell_Some_length)
        have pa1: "cell h1 pa = Some pnd"
          using Fr1 pa Node.prems(3) by simp
        have c3: "cell h3 a = Some nda2" "cell h3 na = Some (set_c nd 1 (root_ptr rl))"
          "cell h3 pa = Some (set_c pnd i (c_of nda2 (1 - i)))"
          using a pa la C1 by (auto simp: h3_def h2_def)
        have fr3: "\<And>b. b \<noteq> a \<Longrightarrow> b \<noteq> pa \<Longrightarrow> cell h3 b = cell h1 b"
          by (simp add: h3_def h2_def)
        have run: "Find_sub f h n (Some pa) k i = Inr (Some pa, Some a, h3)"
          using True False nd ky F1 nda(1) pa1 a la
          by (simp add: x n f Find_up_def h3_def h2_def nda2_def)
        have t3L: "tree_at h3 (c_of nd 0) L"
          using tL
        proof (rule tree_at_frame)
          show "\<forall>b\<in>set (addrs L). cell h3 b = cell h b"
            using a pa naL LR Fr1 fr3 by (metis disjoint_iff)
        qed
        have t3rl: "tree_at h3 (root_ptr rl) rl"
          using Trl a sub unfolding crl h3_def h2_def by (intro tree_at_update)
        have t3rr: "tree_at h3 (root_ptr rr) rr"
          using Trr a sub unfolding crr h3_def h2_def by (intro tree_at_update)
        have T3: "tree_at h3 (Some a) (Node (Node L (na, y, w) rl) (a, k, v) rr)"
          using c3 t3L t3rl t3rr nda ky vw crr by (simp add: nda2_def)
        have P3: "cell h3 pa = Some (set_c pnd i (root_ptr (if i = 0 then rr else Node L (na, y, w) rl)))"
          using c3(3) i crr by (auto simp: nda2_def)
        have Fr3: "\<forall>b. b \<notin> set (addrs (Node L x R)) \<longrightarrow> b \<noteq> pa \<longrightarrow> cell h3 b = cell h b"
          using fr3 Fr1 by (simp add: x aR)
        have "length h3 = length h"
          by (simp add: h3_def h2_def len1)
        with run T3 P3 Fr3 Some True False show ?thesis
          by (simp add: x t'')
      qed
    next
      case lt: False
      with False have kl: "k < y" by simp
      note IH = Node.IH(1)[OF tL dL nd naL hL, of 0]
      show ?thesis
      proof (cases "to_root k L")
        case None
        with IH have "Find_sub g h (c_of nd 0) (Some na) k 0 = Inr (None, Some na, h)"
          by simp
        with None lt False nd ky show ?thesis
          by (simp add: x n f)
      next
        case (Some t'')
        then obtain ll a v lr where t'': "t'' = Node ll (a, k, v) lr"
          using to_root_Node by blast
        from IH Some t'' obtain h1 where
          F1: "Find_sub g h (c_of nd 0) (Some na) k 0 = Inr (Some na, Some a, h1)" and
          T1: "tree_at h1 (Some a) (Node ll (a, k, v) lr)" and
          C1: "cell h1 na = Some (set_c nd 0 (root_ptr lr))" and
          Fr1: "\<forall>b. b \<notin> set (addrs L) \<longrightarrow> b \<noteq> na \<longrightarrow> cell h1 b = cell h b" and
          len1: "length h1 = length h"
          by auto
        from T1 obtain nda where nda: "cell h1 a = Some nda" "k_of nda = k" "v_of nda = v"
          and Tll: "tree_at h1 (c_of nda 0) ll" and Tlr: "tree_at h1 (c_of nda 1) lr"
          by (auto split: option.splits)
        have aL: "addrs L = addrs ll @ a # addrs lr"
          using to_root_addrs[OF Some] by (simp add: t'')
        with dL naL pa LR naR have a: "a \<noteq> na" "a \<noteq> pa" "a \<notin> set (addrs R)"
          "a \<notin> set (addrs ll)" "a \<notin> set (addrs lr)"
          and sub: "pa \<notin> set (addrs ll)" "pa \<notin> set (addrs lr)"
          "na \<notin> set (addrs ll)" "na \<notin> set (addrs lr)"
          by auto
        have cll: "c_of nda 0 = root_ptr ll" and clr: "c_of nda 1 = root_ptr lr"
          using Tll Tlr tree_at_root by blast+
        define nda2 where "nda2 = set_c nda 1 (Some na)"
        define h2 where "h2 = h1[a := Some nda2]"
        define h3 where "h3 = h2[pa := Some (set_c pnd i (c_of nda2 (1 - i)))]"
        have la: "a < length h1" "pa < length h1" "na < length h1"
          using nda(1) C1 Node.prems(3) len1 by (auto dest: cell_Some_length)
        have pa1: "cell h1 pa = Some pnd"
          using Fr1 pa Node.prems(3) by simp
        have c3: "cell h3 a = Some nda2" "cell h3 na = Some (set_c nd 0 (root_ptr lr))"
          "cell h3 pa = Some (set_c pnd i (c_of nda2 (1 - i)))"
          using a pa la C1 by (auto simp: h3_def h2_def)
        have fr3: "\<And>b. b \<noteq> a \<Longrightarrow> b \<noteq> pa \<Longrightarrow> cell h3 b = cell h1 b"
          by (simp add: h3_def h2_def)
        have run: "Find_sub f h n (Some pa) k i = Inr (Some pa, Some a, h3)"
          using lt False nd ky F1 nda(1) pa1 a la
          by (simp add: x n f Find_up_def h3_def h2_def nda2_def)
        have t3R: "tree_at h3 (c_of nd 1) R"
          using tR
        proof (rule tree_at_frame)
          show "\<forall>b\<in>set (addrs R). cell h3 b = cell h b"
            using a pa naR LR Fr1 fr3 by (metis disjoint_iff)
        qed
        have t3ll: "tree_at h3 (root_ptr ll) ll"
          using Tll a sub unfolding cll h3_def h2_def by (intro tree_at_update)
        have t3lr: "tree_at h3 (root_ptr lr) lr"
          using Tlr a sub unfolding clr h3_def h2_def by (intro tree_at_update)
        have T3: "tree_at h3 (Some a) (Node ll (a, k, v) (Node lr (na, y, w) R))"
          using c3 t3R t3ll t3lr nda ky vw cll by (simp add: nda2_def)
        have P3: "cell h3 pa = Some (set_c pnd i (root_ptr (if i = 0 then Node lr (na, y, w) R else ll)))"
          using c3(3) i cll by (auto simp: nda2_def)
        have Fr3: "\<forall>b. b \<notin> set (addrs (Node L x R)) \<longrightarrow> b \<noteq> pa \<longrightarrow> cell h3 b = cell h b"
          using fr3 Fr1 by (simp add: x aL)
        have "length h3 = length h"
          by (simp add: h3_def h2_def len1)
        with run T3 P3 Fr3 Some lt False show ?thesis
          by (simp add: x t'')
      qed
    qed
  qed
qed

lemma Find_spec:
  assumes "tree_at h n t" "distinct (addrs t)" "height t \<le> f"
  shows "case to_root k t of
           None \<Rightarrow> Find f h n k = Inr (None, n, h)
         | Some t' \<Rightarrow>
             \<exists>h'. Find f h n k = Inr (root_ptr t', root_ptr t', h') \<and>
               tree_at h' (root_ptr t') t' \<and>
               (\<forall>b. b \<notin> set (addrs t) \<longrightarrow> cell h' b = cell h b) \<and>
               length h' = length h"
proof (cases t)
  case Leaf
  with assms show ?thesis by (simp add: Find_def)
next
  case (Node L x R)
  obtain na y w where x: "x = (na, y, w)" by (cases x)
  from assms obtain nd where n: "n = Some na" and nd: "cell h na = Some nd"
    and ky: "k_of nd = y" and vw: "v_of nd = w"
    and tL: "tree_at h (c_of nd 0) L" and tR: "tree_at h (c_of nd 1) R"
    by (auto simp: Node x split: option.splits)
  from assms have dL: "distinct (addrs L)" and dR: "distinct (addrs R)"
    and naL: "na \<notin> set (addrs L)" and naR: "na \<notin> set (addrs R)"
    and LR: "set (addrs L) \<inter> set (addrs R) = {}"
    and hL: "height L < f" and hR: "height R < f"
    by (auto simp: Node x)
  show ?thesis
  proof (cases "k = y")
    case True
    with assms(1) nd ky show ?thesis
      by (simp add: Node x n Find_def)
  next
    case False
    show ?thesis
    proof (cases "y < k")
      case True
      note S = Find_sub_spec[OF tR dR nd naR hR, of 1 k]
      show ?thesis
      proof (cases "to_root k R")
        case None
        with S have "Find_sub f h (c_of nd 1) (Some na) k 1 = Inr (None, Some na, h)"
          by simp
        with None True False nd ky show ?thesis
          by (simp add: Node x n Find_def)
      next
        case (Some t'')
        then obtain rl a v rr where t'': "t'' = Node rl (a, k, v) rr"
          using to_root_Node by blast
        from S Some t'' obtain h1 where
          F1: "Find_sub f h (c_of nd 1) (Some na) k 1 = Inr (Some na, Some a, h1)" and
          T1: "tree_at h1 (Some a) (Node rl (a, k, v) rr)" and
          C1: "cell h1 na = Some (set_c nd 1 (root_ptr rl))" and
          Fr1: "\<forall>b. b \<notin> set (addrs R) \<longrightarrow> b \<noteq> na \<longrightarrow> cell h1 b = cell h b" and
          len1: "length h1 = length h"
          by auto
        from T1 obtain nda where nda: "cell h1 a = Some nda" "k_of nda = k" "v_of nda = v"
          and Trl: "tree_at h1 (c_of nda 0) rl" and Trr: "tree_at h1 (c_of nda 1) rr"
          by (auto split: option.splits)
        have aR: "addrs R = addrs rl @ a # addrs rr"
          using to_root_addrs[OF Some] by (simp add: t'')
        with dR naR LR naL have a: "a \<noteq> na" "a \<notin> set (addrs L)"
          "a \<notin> set (addrs rl)" "a \<notin> set (addrs rr)"
          and sub: "na \<notin> set (addrs rl)" "na \<notin> set (addrs rr)"
          by auto
        have crl: "c_of nda 0 = root_ptr rl" and crr: "c_of nda 1 = root_ptr rr"
          using Trl Trr tree_at_root by blast+
        define nda2 where "nda2 = set_c nda 0 (Some na)"
        define h2 where "h2 = h1[a := Some nda2]"
        have la: "a < length h1" "na < length h1"
          using nda(1) C1 len1 by (auto dest: cell_Some_length)
        have c2: "cell h2 a = Some nda2"
          "cell h2 na = Some (set_c nd 1 (root_ptr rl))"
          using a la C1 by (auto simp: h2_def)
        have fr2: "\<And>b. b \<noteq> a \<Longrightarrow> cell h2 b = cell h1 b"
          by (simp add: h2_def)
        have run: "Find f h n k = Inr (Some a, Some a, h2)"
          using True False nd ky F1 nda(1) a la
          by (simp add: Node x n Find_def h2_def nda2_def)
        have t2L: "tree_at h2 (c_of nd 0) L"
          using tL
        proof (rule tree_at_frame)
          show "\<forall>b\<in>set (addrs L). cell h2 b = cell h b"
            using a naL LR Fr1 fr2 by (metis disjoint_iff)
        qed
        have t2rl: "tree_at h2 (root_ptr rl) rl"
          using Trl a sub unfolding crl h2_def by (intro tree_at_update)
        have t2rr: "tree_at h2 (root_ptr rr) rr"
          using Trr a sub unfolding crr h2_def by (intro tree_at_update)
        have T2: "tree_at h2 (Some a) (Node (Node L (na, y, w) rl) (a, k, v) rr)"
          using c2 t2L t2rl t2rr nda ky vw crr by (simp add: nda2_def)
        have Fr2: "\<forall>b. b \<notin> set (addrs t) \<longrightarrow> cell h2 b = cell h b"
          using fr2 Fr1 by (simp add: Node x aR)
        have "length h2 = length h"
          by (simp add: h2_def len1)
        with run T2 Fr2 Some True False show ?thesis
          by (simp add: Node x t'')
      qed
    next
      case lt: False
      note S = Find_sub_spec[OF tL dL nd naL hL, of 0 k]
      show ?thesis
      proof (cases "to_root k L")
        case None
        with S have "Find_sub f h (c_of nd 0) (Some na) k 0 = Inr (None, Some na, h)"
          by simp
        with None lt False nd ky show ?thesis
          by (simp add: Node x n Find_def)
      next
        case (Some t'')
        then obtain ll a v lr where t'': "t'' = Node ll (a, k, v) lr"
          using to_root_Node by blast
        from S Some t'' obtain h1 where
          F1: "Find_sub f h (c_of nd 0) (Some na) k 0 = Inr (Some na, Some a, h1)" and
          T1: "tree_at h1 (Some a) (Node ll (a, k, v) lr)" and
          C1: "cell h1 na = Some (set_c nd 0 (root_ptr lr))" and
          Fr1: "\<forall>b. b \<notin> set (addrs L) \<longrightarrow> b \<noteq> na \<longrightarrow> cell h1 b = cell h b" and
          len1: "length h1 = length h"
          by auto
        from T1 obtain nda where nda: "cell h1 a = Some nda" "k_of nda = k" "v_of nda = v"
          and Tll: "tree_at h1 (c_of nda 0) ll" and Tlr: "tree_at h1 (c_of nda 1) lr"
          by (auto split: option.splits)
        have aL: "addrs L = addrs ll @ a # addrs lr"
          using to_root_addrs[OF Some] by (simp add: t'')
        with dL naL LR naR have a: "a \<noteq> na" "a \<notin> set (addrs R)"
          "a \<notin> set (addrs ll)" "a \<notin> set (addrs lr)"
          and sub: "na \<notin> set (addrs ll)" "na \<notin> set (addrs lr)"
          by auto
        have cll: "c_of nda 0 = root_ptr ll" and clr: "c_of nda 1 = root_ptr lr"
          using Tll Tlr tree_at_root by blast+
        define nda2 where "nda2 = set_c nda 1 (Some na)"
        define h2 where "h2 = h1[a := Some nda2]"
        have la: "a < length h1" "na < length h1"
          using nda(1) C1 len1 by (auto dest: cell_Some_length)
        have c2: "cell h2 a = Some nda2"
          "cell h2 na = Some (set_c nd 0 (root_ptr lr))"
          using a la C1 by (auto simp: h2_def)
        have fr2: "\<And>b. b \<noteq> a \<Longrightarrow> cell h2 b = cell h1 b"
          by (simp add: h2_def)
        have run: "Find f h n k = Inr (Some a, Some a, h2)"
          using lt False nd ky F1 nda(1) a la
          by (simp add: Node x n Find_def h2_def nda2_def)
        have t2R: "tree_at h2 (c_of nd 1) R"
          using tR
        proof (rule tree_at_frame)
          show "\<forall>b\<in>set (addrs R). cell h2 b = cell h b"
            using a naR LR Fr1 fr2 by (metis disjoint_iff)
        qed
        have t2ll: "tree_at h2 (root_ptr ll) ll"
          using Tll a sub unfolding cll h2_def by (intro tree_at_update)
        have t2lr: "tree_at h2 (root_ptr lr) lr"
          using Tlr a sub unfolding clr h2_def by (intro tree_at_update)
        have T2: "tree_at h2 (Some a) (Node ll (a, k, v) (Node lr (na, y, w) R))"
          using c2 t2R t2ll t2lr nda ky vw cll by (simp add: nda2_def)
        have Fr2: "\<forall>b. b \<notin> set (addrs t) \<longrightarrow> cell h2 b = cell h b"
          using fr2 Fr1 by (simp add: Node x aL)
        have "length h2 = length h"
          by (simp add: h2_def len1)
        with run T2 Fr2 Some lt False show ?thesis
          by (simp add: Node x t'')
      qed
    qed
  qed
qed

lemma Find_sub_miss:
  "tree_at h n t \<Longrightarrow> to_root k t = None \<Longrightarrow> height t < f \<Longrightarrow>
   Find_sub f h n p k i = Inr (None, p, h)"
proof (induction t arbitrary: f n p i)
  case Leaf
  then show ?case by (cases f) auto
next
  case (Node l x r)
  obtain a y v where x: "x = (a, y, v)" by (cases x)
  from Node.prems obtain g where f: "f = Suc g" by (cases f) auto
  from Node.prems obtain nd where n: "n = Some a" and nd: "cell h a = Some nd"
    and ky: "k_of nd = y"
    and tL: "tree_at h (c_of nd 0) l" and tR: "tree_at h (c_of nd 1) r"
    by (auto simp: x split: option.splits)
  from Node.prems(2) have ne: "k \<noteq> y" by (auto simp: x)
  show ?case
  proof (cases "y < k")
    case True
    with Node.prems ne have "to_root k r = None"
      by (auto simp: x split: option.splits tree.splits dest: to_root_Node)
    from Node.IH(2)[OF tR this, of g "Some a" 1] Node.prems(3) True ne nd ky show ?thesis
      by (simp add: x n f)
  next
    case False
    with Node.prems ne have "to_root k l = None"
      by (auto simp: x split: option.splits tree.splits dest: to_root_Node)
    from Node.IH(1)[OF tL this, of g "Some a" 0] Node.prems(3) False ne nd ky show ?thesis
      by (simp add: x n f)
  qed
qed

lemma Find_miss:
  assumes "tree_at h n t" "k \<notin> set (keys t)" "height t \<le> f"
  shows "Find f h n k = Inr (None, n, h)"
proof (cases t)
  case Leaf
  with assms show ?thesis by (simp add: Find_def)
next
  case (Node l x r)
  obtain a y v where x: "x = (a, y, v)" by (cases x)
  from assms obtain nd where n: "n = Some a" and nd: "cell h a = Some nd"
    and ky: "k_of nd = y"
    and tL: "tree_at h (c_of nd 0) l" and tR: "tree_at h (c_of nd 1) r"
    by (auto simp: Node x split: option.splits)
  from assms(2) have ne: "k \<noteq> y" and kl: "k \<notin> set (keys l)" and kr: "k \<notin> set (keys r)"
    by (auto simp: Node x)
  from assms(3) have hh: "height l < f" "height r < f" by (auto simp: Node)
  show ?thesis
    using Find_sub_miss[OF tL to_root_miss[OF kl] hh(1), of "Some a" 0]
      Find_sub_miss[OF tR to_root_miss[OF kr] hh(2), of "Some a" 1] ne nd ky
    by (simp add: Find_def n)
qed

lemma Find_hit:
  assumes "tree_at h n t" "distinct (addrs t)" "sorted (keys t)" "k \<in> set (keys t)"
    "height t \<le> f"
  shows "\<exists>a v l r h'.
           Find f h n k = Inr (Some a, Some a, h') \<and>
           to_root k t = Some (Node l (a, k, v) r) \<and>
           tree_at h' (Some a) (Node l (a, k, v) r) \<and>
           length h' = length h \<and>
           (\<forall>b. b \<notin> set (addrs t) \<longrightarrow> cell h' b = cell h b)"
proof -
  from to_root_hit[OF assms(3,4)] obtain t' where t': "to_root k t = Some t'" by blast
  then obtain l a v r where N: "t' = Node l (a, k, v) r" using to_root_Node by blast
  from Find_spec[OF assms(1,2,5), of k] t' N show ?thesis by auto
qed

lemma find_h_hit:
  assumes "tree_at h n t" "distinct (addrs t)" "sorted (keys t)" "k \<in> set (keys t)"
    "height t \<le> f"
  shows "\<exists>a v l r h'.
           find_h iv f h \<lparr>tree_of = n, length_of = len\<rparr> k =
             Inr (v, h', \<lparr>tree_of = Some a, length_of = len\<rparr>) \<and>
           Find f h n k = Inr (Some a, Some a, h') \<and>
           to_root k t = Some (Node l (a, k, v) r) \<and>
           tree_at h' (Some a) (Node l (a, k, v) r)"
proof -
  from Find_hit[OF assms] obtain a v l r h' where
    F: "Find f h n k = Inr (Some a, Some a, h')" and
    R: "to_root k t = Some (Node l (a, k, v) r)" and
    T: "tree_at h' (Some a) (Node l (a, k, v) r)"
    by blast
  from T have "\<exists>nd. cell h' a = Some nd \<and> v_of nd = v"
    by (auto split: option.splits)
  with F have "find_h iv f h \<lparr>tree_of = n, length_of = len\<rparr> k =
      Inr (v, h', \<lparr>tree_of = Some a, length_of = len\<rparr>)"
    by (auto simp: find_h_def)
  with F R T show ?thesis by blast
qed

subsection \<open>Keys, values and live addresses stay as they are\<close>

lemma same_nodes_refl [simp]: "same_nodes h h"
  by (simp add: same_nodes_def)

lemma same_nodes_trans: "same_nodes h h1 \<Longrightarrow> same_nodes h1 h2 \<Longrightarrow> same_nodes h h2"
  by (simp add: same_nodes_def)

lemma wr_c_same_nodes: "wr_c h p i q = Inr h' \<Longrightarrow> same_nodes h h'"
  by (auto simp: wr_c_def bnd_eq_Inr deref_Inr same_nodes_def nth_list_update cell_def
      split: if_splits option.splits)

lemma Find_up_same_nodes: "Find_up h n p i = Inr (c, p', h') \<Longrightarrow> same_nodes h h'"
  by (auto simp: Find_up_def bnd_eq_Inr dest: wr_c_same_nodes)

lemma Find_sub_same_nodes:
  "Find_sub f h n p k i = Inr (c, p', h') \<Longrightarrow> same_nodes h h'"
proof (induction f arbitrary: h n p i c p' h')
  case 0
  then show ?case by simp
next
  case (Suc f)
  show ?case
  proof (cases n)
    case None
    with Suc.prems show ?thesis by simp
  next
    case (Some a)
    with Suc.prems obtain nd where nd: "deref h n = Inr nd"
      by (auto simp: bnd_eq_Inr)
    show ?thesis
    proof (cases "k = k_of nd")
      case True
      with Suc.prems Some nd show ?thesis
        by (auto dest: Find_up_same_nodes)
    next
      case False
      define j :: nat where "j = (if k_of nd < k then 1 else 0)"
      from Suc.prems Some nd False have
        "bnd (Find_sub f h (c_of nd j) n k j) (\<lambda>(c, n', h').
           if c = None then Inr (None, p, h')
           else bnd (wr_c h' n' (1 - j) c) (\<lambda>h''. Find_up h'' n' p i)) = Inr (c, p', h')"
        unfolding j_def by (simp add: Let_def)
      then obtain c1 n1 h1 where
        rec: "Find_sub f h (c_of nd j) n k j = Inr (c1, n1, h1)" and
        rest: "(if c1 = None then Inr (None, p, h1)
                else bnd (wr_c h1 n1 (1 - j) c1) (\<lambda>h''. Find_up h'' n1 p i)) = Inr (c, p', h')"
        by (auto simp: bnd_eq_Inr)
      from Suc.IH[OF rec] have s1: "same_nodes h h1" .
      show ?thesis
      proof (cases "c1 = None")
        case True
        with rest s1 show ?thesis by simp
      next
        case False
        with rest obtain h2 where "wr_c h1 n1 (1 - j) c1 = Inr h2" "Find_up h2 n1 p i = Inr (c, p', h')"
          by (auto simp: bnd_eq_Inr)
        with s1 show ?thesis
          by (blast intro: same_nodes_trans dest: wr_c_same_nodes Find_up_same_nodes)
      qed
    qed
  qed
qed

lemma Find_same_nodes:
  assumes "Find f h n k = Inr (c, n', h')"
  shows "same_nodes h h'"
proof (cases n)
  case None
  with assms show ?thesis by (simp add: Find_def)
next
  case (Some a)
  with assms obtain nd where nd: "deref h n = Inr nd"
    by (auto simp: Find_def bnd_eq_Inr)
  show ?thesis
  proof (cases "k = k_of nd")
    case True
    with assms Some nd show ?thesis by (simp add: Find_def)
  next
    case False
    define i :: nat where "i = (if k_of nd < k then 1 else 0)"
    from assms Some nd False have
      "bnd (Find_sub f h (c_of nd i) n k i) (\<lambda>(c, n', h').
         if c = None then Inr (None, n', h')
         else bnd (wr_c h' n' (1 - i) c) (\<lambda>h''. Inr (n', n', h''))) = Inr (c, n', h')"
      unfolding i_def by (simp add: Find_def Let_def)
    then obtain c1 n1 h1 where
      rec: "Find_sub f h (c_of nd i) n k i = Inr (c1, n1, h1)" and
      rest: "(if c1 = None then Inr (None, n1, h1)
              else bnd (wr_c h1 n1 (1 - i) c1) (\<lambda>h''. Inr (n1, n1, h''))) = Inr (c, n', h')"
      by (auto simp: bnd_eq_Inr)
    from Find_sub_same_nodes[OF rec] have s1: "same_nodes h h1" .
    show ?thesis
    proof (cases "c1 = None")
      case True
      with rest s1 show ?thesis by simp
    next
      case False
      with rest have "wr_c h1 n1 (1 - i) c1 = Inr h'"
        by (auto simp: bnd_eq_Inr)
      with s1 show ?thesis
        by (blast intro: same_nodes_trans dest: wr_c_same_nodes)
    qed
  qed
qed

section \<open>Insertion on trees and on the heap\<close>

lemma inorder_ins: "mset (inorder (ins e t)) = add_mset e (mset (inorder t))"
proof (induction t)
  case Leaf
  then show ?case by simp
next
  case (Node l x r)
  obtain a y w where x: "x = (a, y, w)" by (cases x)
  from Node show ?case by (simp add: x)
qed

lemma pairs_ins: "mset (pairs (ins e t)) = add_mset (snd e) (mset (pairs t))"
  by (simp add: pairs_def inorder_ins)

lemma set_addrs_ins [simp]: "set (addrs (ins e t)) = insert (fst e) (set (addrs t))"
proof (induction t)
  case Leaf
  then show ?case by simp
next
  case (Node l x r)
  obtain b k v where x: "x = (b, k, v)" by (cases x)
  from Node show ?case by (auto simp: x)
qed

lemma set_keys_ins: "set (keys (ins e t)) = insert (fst (snd e)) (set (keys t))"
proof (induction t)
  case Leaf
  obtain b k v where "e = (b, k, v)" by (cases e)
  then show ?case by simp
next
  case (Node l x r)
  obtain a y w where x: "x = (a, y, w)" by (cases x)
  from Node show ?case by (auto simp: x)
qed

lemma sorted_keys_ins: "sorted (keys t) \<Longrightarrow> sorted (keys (ins e t))"
proof (induction t)
  case Leaf
  obtain b k v where "e = (b, k, v)" by (cases e)
  then show ?case by simp
next
  case (Node l x r)
  obtain a y w where x: "x = (a, y, w)" by (cases x)
  from Node show ?case
    by (auto simp: x sorted_append set_keys_ins)
qed

lemma ordered_ins: "ordered t \<Longrightarrow> ordered (ins e t)"
proof (induction t)
  case Leaf
  obtain b k v where "e = (b, k, v)" by (cases e)
  then show ?case by simp
next
  case (Node l x r)
  obtain a y w where x: "x = (a, y, w)" by (cases x)
  from Node show ?case
    by (auto simp: x set_keys_ins)
qed

lemma size_ins [simp]: "size (ins e t) = Suc (size t)"
proof (induction t)
  case Leaf
  then show ?case by simp
next
  case (Node l x r)
  obtain a y w where x: "x = (a, y, w)" by (cases x)
  from Node show ?case by (simp add: x)
qed

lemma distinct_addrs_ins:
  "distinct (addrs t) \<Longrightarrow> fst e \<notin> set (addrs t) \<Longrightarrow> distinct (addrs (ins e t))"
proof -
  assume d: "distinct (addrs t)" and e: "fst e \<notin> set (addrs t)"
  have "mset (addrs (ins e t)) = mset (fst e # addrs t)"
    by (simp add: addrs_def inorder_ins)
  then have "distinct (addrs (ins e t)) \<longleftrightarrow> distinct (fst e # addrs t)"
    by (rule mset_eq_imp_distinct_iff)
  with d e show ?thesis by simp
qed

lemma Add_spec:
  assumes "tree_at h n t" "distinct (addrs t)" "height t < f"
  shows "\<exists>h'. Add f h n k v = Inr (root_ptr (ins (length h, k, v) t), h') \<and>
           tree_at h' (root_ptr (ins (length h, k, v) t)) (ins (length h, k, v) t) \<and>
           length h' = Suc (length h) \<and>
           (\<forall>b. b \<notin> set (addrs t) \<longrightarrow> b < length h \<longrightarrow> cell h' b = cell h b)"
  using assms
proof (induction t arbitrary: f n)
  case Leaf
  then obtain g where "f = Suc g" by (cases f) auto
  with Leaf show ?case by (simp add: new_node_def)
next
  case (Node L x R)
  obtain na y w where x: "x = (na, y, w)" by (cases x)
  let ?e = "(length h, k, v)"
  from Node.prems obtain g where f: "f = Suc g" by (cases f) auto
  from Node.prems obtain nd where n: "n = Some na" and nd: "cell h na = Some nd"
    and ky: "k_of nd = y" and vw: "v_of nd = w"
    and tL: "tree_at h (c_of nd 0) L" and tR: "tree_at h (c_of nd 1) R"
    by (auto simp: x split: option.splits)
  from Node.prems have dL: "distinct (addrs L)" and dR: "distinct (addrs R)"
    and naL: "na \<notin> set (addrs L)" and naR: "na \<notin> set (addrs R)"
    and LR: "set (addrs L) \<inter> set (addrs R) = {}"
    and hL: "height L < g" and hR: "height R < g"
    by (auto simp: x f)
  have na: "na < length h" using nd by (rule cell_Some_length)
  have ltL: "\<forall>b\<in>set (addrs L). b < length h" and ltR: "\<forall>b\<in>set (addrs R). b < length h"
    using tL tR tree_at_addrs_lt by blast+
  show ?case
  proof (cases "y \<le> k")
    case True
    from Node.IH(2)[OF tR dR hR] obtain h1 where
      A1: "Add g h (c_of nd 1) k v = Inr (root_ptr (ins ?e R), h1)" and
      T1: "tree_at h1 (root_ptr (ins ?e R)) (ins ?e R)" and
      len1: "length h1 = Suc (length h)" and
      Fr1: "\<forall>b. b \<notin> set (addrs R) \<longrightarrow> b < length h \<longrightarrow> cell h1 b = cell h b"
      by blast
    define h2 where "h2 = h1[na := Some (set_c nd 1 (root_ptr (ins ?e R)))]"
    have c1: "cell h1 na = Some nd" using Fr1 naR na nd by simp
    have run: "Add f h n k v = Inr (Some na, h2)"
      using True nd ky A1 c1 by (simp add: f n h2_def)
    have T2R: "tree_at h2 (root_ptr (ins ?e R)) (ins ?e R)"
      unfolding h2_def using T1 naR na by (intro tree_at_update) auto
    have T2L: "tree_at h2 (c_of nd 0) L"
      using tL
    proof (rule tree_at_frame)
      show "\<forall>b\<in>set (addrs L). cell h2 b = cell h b"
        using naL LR Fr1 ltL by (auto simp: h2_def)
    qed
    have "tree_at h2 (Some na) (Node L (na, y, w) (ins ?e R))"
      using T2L T2R ky vw na len1 by (simp add: h2_def)
    moreover have "\<forall>b. b \<notin> set (addrs (Node L x R)) \<longrightarrow> b < length h \<longrightarrow> cell h2 b = cell h b"
      using Fr1 by (simp add: x h2_def)
    moreover have "length h2 = Suc (length h)" by (simp add: h2_def len1)
    ultimately show ?thesis using run True by (simp add: x)
  next
    case False
    from Node.IH(1)[OF tL dL hL] obtain h1 where
      A1: "Add g h (c_of nd 0) k v = Inr (root_ptr (ins ?e L), h1)" and
      T1: "tree_at h1 (root_ptr (ins ?e L)) (ins ?e L)" and
      len1: "length h1 = Suc (length h)" and
      Fr1: "\<forall>b. b \<notin> set (addrs L) \<longrightarrow> b < length h \<longrightarrow> cell h1 b = cell h b"
      by blast
    define h2 where "h2 = h1[na := Some (set_c nd 0 (root_ptr (ins ?e L)))]"
    have c1: "cell h1 na = Some nd" using Fr1 naL na nd by simp
    have run: "Add f h n k v = Inr (Some na, h2)"
      using False nd ky A1 c1 by (simp add: f n h2_def)
    have T2L: "tree_at h2 (root_ptr (ins ?e L)) (ins ?e L)"
      unfolding h2_def using T1 naL na by (intro tree_at_update) auto
    have T2R: "tree_at h2 (c_of nd 1) R"
      using tR
    proof (rule tree_at_frame)
      show "\<forall>b\<in>set (addrs R). cell h2 b = cell h b"
        using naR LR Fr1 ltR by (auto simp: h2_def)
    qed
    have "tree_at h2 (Some na) (Node (ins ?e L) (na, y, w) R)"
      using T2L T2R ky vw na len1 by (simp add: h2_def)
    moreover have "\<forall>b. b \<notin> set (addrs (Node L x R)) \<longrightarrow> b < length h \<longrightarrow> cell h2 b = cell h b"
      using Fr1 by (simp add: x h2_def)
    moreover have "length h2 = Suc (length h)" by (simp add: h2_def len1)
    ultimately show ?thesis using run False by (simp add: x)
  qed
qed

lemma Add_valid:
  assumes "tree_at h n t" "distinct (addrs t)" "size t < f"
  shows "\<exists>n' h'. Add f h n k v = Inr (n', h') \<and> length h' = Suc (length h) \<and>
           tree_at h' n' (ins (length h, k, v) t) \<and>
           distinct (addrs (ins (length h, k, v) t))"
proof -
  have "height t < f" using assms(3) height_le_size[of t] by simp
  from Add_spec[OF assms(1,2) this, of k v] obtain h' where
    "Add f h n k v = Inr (root_ptr (ins (length h, k, v) t), h')"
    "tree_at h' (root_ptr (ins (length h, k, v) t)) (ins (length h, k, v) t)"
    "length h' = Suc (length h)"
    by blast
  moreover have "length h \<notin> set (addrs t)"
    using tree_at_addrs_lt[OF assms(1)] by blast
  then have "distinct (addrs (ins (length h, k, v) t))"
    using assms(2) by (simp add: distinct_addrs_ins)
  ultimately show ?thesis by blast
qed

lemma add_valid:
  assumes "valid h s t" "size t < f"
  shows "\<exists>h' s'. add f h s k v = Inr (h', s') \<and> valid h' s' (ins (length h, k, v) t) \<and>
           length_of s' = length_of s + 1"
proof -
  from assms(1) have t: "tree_at h (tree_of s) t" "distinct (addrs t)" "sorted (keys t)"
    by (simp_all add: valid_def)
  from Add_valid[OF t(1,2) assms(2), of k v] obtain n' h' where
    "Add f h (tree_of s) k v = Inr (n', h')" "tree_at h' n' (ins (length h, k, v) t)"
    "distinct (addrs (ins (length h, k, v) t))"
    by blast
  with sorted_keys_ins[OF t(3), of "(length h, k, v)"] show ?thesis
    by (simp add: add_def valid_def)
qed

lemma Adds_spec:
  assumes "tree_at h n t" "distinct (addrs t)" "size t + length kvs \<le> f"
  shows "\<exists>n' h' t'. Adds f h n kvs = Inr (n', h') \<and> tree_at h' n' t' \<and>
           distinct (addrs t') \<and> (ordered t \<longrightarrow> ordered t') \<and>
           (sorted (keys t) \<longrightarrow> sorted (keys t')) \<and>
           mset (pairs t') = mset (pairs t) + mset kvs \<and>
           length h' = length h + length kvs"
  using assms
proof (induction kvs arbitrary: h n t)
  case Nil
  then show ?case by auto
next
  case (Cons kv kvs)
  obtain k v where kv: "kv = (k, v)" by (cases kv)
  let ?t1 = "ins (length h, k, v) t"
  from Cons.prems have "size t < f" by simp
  from Add_valid[OF Cons.prems(1,2) this, of k v] obtain n1 h1 where
    A: "Add f h n k v = Inr (n1, h1)" and len1: "length h1 = Suc (length h)" and
    T1: "tree_at h1 n1 ?t1" and d1: "distinct (addrs ?t1)"
    by blast
  from Cons.prems have "size ?t1 + length kvs \<le> f" by simp
  from Cons.IH[OF T1 d1 this] obtain n' h' t' where
    R: "Adds f h1 n1 kvs = Inr (n', h')" "tree_at h' n' t'" "distinct (addrs t')"
      "ordered ?t1 \<longrightarrow> ordered t'" "sorted (keys ?t1) \<longrightarrow> sorted (keys t')"
      "mset (pairs t') = mset (pairs ?t1) + mset kvs" "length h' = length h1 + length kvs"
    by blast
  have "Adds f h n (kv # kvs) = Inr (n', h')"
    using A R(1) by (simp add: kv)
  moreover have "ordered t \<longrightarrow> ordered t'"
    using R(4) ordered_ins by blast
  moreover have "sorted (keys t) \<longrightarrow> sorted (keys t')"
    using R(5) sorted_keys_ins by blast
  moreover have "mset (pairs t') = mset (pairs t) + mset (kv # kvs)"
    using R(6) by (simp add: pairs_ins kv)
  moreover have "length h' = length h + length (kv # kvs)"
    using R(7) len1 by simp
  ultimately show ?case using R(2,3) by blast
qed

lemma add_all_Adds:
  "add_all f h s kvs =
     bnd (Adds f h (tree_of s) kvs) (\<lambda>(n', h').
       Inr (h', \<lparr>tree_of = n', length_of = length_of s + of_nat (length kvs)\<rparr>))"
proof (induction kvs arbitrary: h s)
  case Nil
  then show ?case by simp
next
  case (Cons kv kvs)
  obtain k v where kv: "kv = (k, v)" by (cases kv)
  show ?case
  proof (cases "Add f h (tree_of s) k v")
    case (Inl e)
    then show ?thesis by (simp add: kv add_def)
  next
    case (Inr x)
    obtain n1 h1 where x: "x = (n1, h1)" by (cases x)
    from Inr x Cons.IH[of h1 "s\<lparr>tree_of := n1, length_of := length_of s + 1\<rparr>"]
    show ?thesis
      by (simp add: kv add_def add.assoc)
  qed
qed

section \<open>Deletion on trees and on the heap\<close>

lemma split_left_inorder:
  "split_left l x r = (m, t') \<Longrightarrow> inorder (Node l x r) = m # inorder t'"
proof (induction l arbitrary: x r m t')
  case Leaf
  then show ?case by simp
next
  case (Node ll y lr)
  then show ?case by (auto split: prod.splits)
qed

lemma split_left_addrs:
  "split_left l x r = (m, t') \<Longrightarrow> addrs (Node l x r) = fst m # addrs t'"
  using split_left_inorder[of l x r m t'] by (simp add: addrs_def)

lemma delete_root_inorder: "inorder (delete_root (Node l x r)) = inorder l @ inorder r"
proof (cases r)
  case Leaf
  then show ?thesis by simp
next
  case (Node rl y rr)
  obtain m r' where s: "split_left rl y rr = (m, r')" by (cases "split_left rl y rr")
  from split_left_inorder[OF s] s Node show ?thesis by simp
qed

lemma descend_splice:
  assumes "tree_at h (Some a) (Node (Node ll z lr) (a, y, w) r)"
    "distinct (addrs (Node (Node ll z lr) (a, y, w) r))" "height (Node ll z lr) \<le> f"
    "split_left (Node ll z lr) (a, y, w) r = (m, t')"
  shows "\<exists>pa pd cd. descend f h 0 p (Some a) = Inr (Some pa, Some (fst m)) \<and>
           cell h pa = Some pd \<and> cell h (fst m) = Some cd \<and>
           (k_of cd, v_of cd) = snd m \<and> pa \<noteq> fst m \<and> pa \<in> set (addrs t') \<and>
           tree_at (h[pa := Some (set_c pd 0 (c_of cd 1))]) (Some a) t'"
  using assms
proof (induction ll arbitrary: z lr a y w r f p m t')
  case Leaf
  obtain la ly lw where z: "z = (la, ly, lw)" by (cases z)
  from Leaf.prems obtain g where f: "f = Suc g" by (cases f) auto
  from Leaf.prems have m: "m = z" and t': "t' = Node lr (a, y, w) r" by auto
  from Leaf.prems obtain nd where nd: "cell h a = Some nd" "k_of nd = y" "v_of nd = w"
    and tl: "tree_at h (c_of nd 0) (Node Leaf z lr)" and tr: "tree_at h (c_of nd 1) r"
    by (auto split: option.splits)
  from tl obtain ld where ld: "c_of nd 0 = Some la" "cell h la = Some ld"
    "k_of ld = ly" "v_of ld = lw" "c_of ld 0 = None" and tlr: "tree_at h (c_of ld 1) lr"
    by (auto simp: z split: option.splits)
  from Leaf.prems(2) have d: "a \<noteq> la" "a \<notin> set (addrs lr)" "a \<notin> set (addrs r)"
    by (auto simp: z)
  have run: "descend f h 0 p (Some a) = Inr (Some a, Some la)"
    using nd ld by (simp add: f descend_Node descend_Leaf)
  have T: "tree_at (h[a := Some (set_c nd 0 (c_of ld 1))]) (Some a) t'"
    unfolding t' using nd tlr tr d cell_Some_length[OF nd(1)] by (simp add: tree_at_update)
  have "a \<in> set (addrs t')" by (simp add: t')
  with run nd(1) ld(2,3,4) d(1) T have
    "descend f h 0 p (Some a) = Inr (Some a, Some (fst m)) \<and>
     cell h a = Some nd \<and> cell h (fst m) = Some ld \<and>
     (k_of ld, v_of ld) = snd m \<and> a \<noteq> fst m \<and> a \<in> set (addrs t') \<and>
     tree_at (h[a := Some (set_c nd 0 (c_of ld 1))]) (Some a) t'"
    unfolding m z by simp
  then show ?case by blast
next
  case (Node l1 z1 l2)
  obtain la ly lw where z: "z = (la, ly, lw)" by (cases z)
  from Node.prems obtain g where f: "f = Suc g" by (cases f) auto
  obtain m1 t1 where s1: "split_left (Node l1 z1 l2) z lr = (m1, t1)"
    by (cases "split_left (Node l1 z1 l2) z lr")
  with Node.prems have m: "m = m1" and t': "t' = Node t1 (a, y, w) r" by auto
  from Node.prems obtain nd where nd: "cell h a = Some nd" "k_of nd = y" "v_of nd = w"
    and tl: "tree_at h (c_of nd 0) (Node (Node l1 z1 l2) z lr)" and tr: "tree_at h (c_of nd 1) r"
    by (auto split: option.splits)
  from tl have la: "c_of nd 0 = Some la" by (simp add: z)
  from tl have ld: "cell h la \<noteq> None" by (auto simp: z split: option.splits)
  from Node.prems(2) have dl: "distinct (addrs (Node (Node l1 z1 l2) (la, ly, lw) lr))"
    and d: "a \<notin> set (addrs (Node (Node l1 z1 l2) z lr))" "a \<notin> set (addrs r)"
    and lr: "set (addrs (Node (Node l1 z1 l2) z lr)) \<inter> set (addrs r) = {}"
    by (auto simp: z)
  from Node.prems(3) have hl: "height (Node l1 z1 l2) \<le> g" by (simp add: f)
  from Node.IH(1)[OF tl[unfolded la z] dl hl s1[unfolded z], of "Some a"]
  obtain pa pd cd where
    run1: "descend g h 0 (Some a) (Some la) = Inr (Some pa, Some (fst m1))" and
    c: "cell h pa = Some pd" "cell h (fst m1) = Some cd" "(k_of cd, v_of cd) = snd m1"
      "pa \<noteq> fst m1" "pa \<in> set (addrs t1)" and
    T: "tree_at (h[pa := Some (set_c pd 0 (c_of cd 1))]) (Some la) t1"
    by blast
  have sub: "set (addrs t1) \<subseteq> set (addrs (Node (Node l1 z1 l2) z lr))"
    using split_left_addrs[OF s1] by auto
  with c d lr have pa: "pa \<noteq> a" "pa \<notin> set (addrs r)" by auto
  have run: "descend f h 0 p (Some a) = Inr (Some pa, Some (fst m1))"
    using nd la run1 by (simp add: f descend_Node)
  have T': "tree_at (h[pa := Some (set_c pd 0 (c_of cd 1))]) (Some a) t'"
    unfolding t' using nd la T tr pa by (simp add: tree_at_update)
  have "pa \<in> set (addrs t')" using c(5) by (simp add: t')
  with run c(1-4) T' have
    "descend f h 0 p (Some a) = Inr (Some pa, Some (fst m)) \<and>
     cell h pa = Some pd \<and> cell h (fst m) = Some cd \<and>
     (k_of cd, v_of cd) = snd m \<and> pa \<noteq> fst m \<and> pa \<in> set (addrs t') \<and>
     tree_at (h[pa := Some (set_c pd 0 (c_of cd 1))]) (Some a) t'"
    unfolding m by simp
  then show ?case by blast
qed

lemma DeleteRoot_spec:
  assumes "tree_at h n (Node l (a, k, v) r)" "distinct (addrs (Node l (a, k, v) r))"
    "height r \<le> f"
  shows "\<exists>h'. DeleteRoot f h n =
             Inr (root_ptr (delete_root (Node l (a, k, v) r)), h') \<and>
           tree_at h' (root_ptr (delete_root (Node l (a, k, v) r)))
             (delete_root (Node l (a, k, v) r)) \<and>
           cell h' a = None \<and> length h' = length h \<and>
           (\<forall>b. b \<notin> set (addrs (Node l (a, k, v) r)) \<longrightarrow> cell h' b = cell h b)"
proof -
  from assms(1) obtain nd where n: "n = Some a" and nd: "cell h a = Some nd"
    and tl: "tree_at h (c_of nd 0) l" and tr: "tree_at h (c_of nd 1) r"
    by (auto split: option.splits)
  from assms(2) have al: "a \<notin> set (addrs l)" and ar: "a \<notin> set (addrs r)"
    and lr: "set (addrs l) \<inter> set (addrs r) = {}" and dr: "distinct (addrs r)"
    by auto
  have la: "a < length h" using nd by (rule cell_Some_length)
  have rl: "c_of nd 0 = root_ptr l" using tl by (rule tree_at_root)
  show ?thesis
  proof (cases r)
    case Leaf
    with tr have "c_of nd 1 = None" by simp
    with nd have "DeleteRoot f h n = Inr (c_of nd 0, h[a := None])"
      by (simp add: DeleteRoot_def n delete_node_def)
    moreover have "tree_at (h[a := None]) (c_of nd 0) l"
      using tl al by (rule tree_at_update)
    ultimately show ?thesis using Leaf rl la by simp
  next
    case (Node rl z rr)
    obtain ra y w where z: "z = (ra, y, w)" by (cases z)
    from tr obtain rd where ra: "c_of nd 1 = Some ra" and rd: "cell h ra = Some rd"
      "k_of rd = y" "v_of rd = w"
      and trl: "tree_at h (c_of rd 0) rl" and trr: "tree_at h (c_of rd 1) rr"
      by (auto simp: Node z split: option.splits)
    from ar have ara: "a \<noteq> ra" by (simp add: Node z)
    show ?thesis
    proof (cases rl)
      case Leaf
      with trl have c0: "c_of rd 0 = None" by simp
      define h3 where "h3 = h[ra := Some (set_c rd 0 (c_of nd 0))]"
      define h5 where "h5 = h3[a := None]"
      have lra: "ra < length h" using rd(1) by (rule cell_Some_length)
      have run: "DeleteRoot f h n = Inr (Some ra, h5)"
        using nd ra rd(1) c0 ara la lra
        by (simp add: DeleteRoot_def n descend_Leaf delete_node_def h5_def h3_def)
      have d: "ra \<notin> set (addrs l)" "ra \<notin> set (addrs rr)" "a \<notin> set (addrs rr)"
        using assms(2) by (auto simp: Node z)
      have T: "tree_at h5 (Some ra) (Node l (ra, y, w) rr)"
        using rd tl trr d al ara lra la
        by (simp add: h5_def h3_def tree_at_update)
      have "cell h5 a = None" "length h5 = length h"
        using la by (simp_all add: h5_def h3_def)
      moreover have "\<forall>b. b \<notin> set (addrs (Node l (a, k, v) r)) \<longrightarrow> cell h5 b = cell h b"
        by (simp add: h5_def h3_def Node z)
      ultimately show ?thesis using run T Leaf Node z by simp
    next
      case rlN: (Node ll z1 lr1)
      obtain m r' where s: "split_left (Node ll z1 lr1) (ra, y, w) rr = (m, r')"
        by (cases "split_left (Node ll z1 lr1) (ra, y, w) rr")
      obtain ca km vm where m: "m = (ca, km, vm)" by (cases m)
      have hrl: "height (Node ll z1 lr1) \<le> f" using assms(3) by (simp add: Node rlN)
      from descend_splice[OF tr[unfolded ra Node z rlN] dr[unfolded Node z rlN] hrl s, of None]
      obtain pa pd cd where
        run1: "descend f h 0 None (Some ra) = Inr (Some pa, Some ca)" and
        c: "cell h pa = Some pd" "cell h ca = Some cd" "k_of cd = km" "v_of cd = vm"
          "pa \<noteq> ca" "pa \<in> set (addrs r')" and
        T1: "tree_at (h[pa := Some (set_c pd 0 (c_of cd 1))]) (Some ra) r'"
        by (auto simp: m)
      have ar': "addrs r = ca # addrs r'"
        using split_left_addrs[OF s] by (simp add: Node z rlN m)
      with dr ar lr c have d: "ca \<notin> set (addrs r')" "a \<notin> set (addrs r')" "a \<noteq> ca" "a \<noteq> pa"
        "ca \<notin> set (addrs l)" "pa \<notin> set (addrs l)"
        by auto
      define h1 where "h1 = h[pa := Some (set_c pd 0 (c_of cd 1))]"
      define h2 where "h2 = h1[ca := Some (set_c cd 1 (Some ra))]"
      define h3 where "h3 = h2[ca := Some (set_c (set_c cd 1 (Some ra)) 0 (c_of nd 0))]"
      define h5 where "h5 = h3[a := None]"
      have len: "pa < length h" "ca < length h"
        using c by (auto dest: cell_Some_length)
      have run: "DeleteRoot f h n = Inr (Some ca, h5)"
        using nd ra run1 c d la len
        by (simp add: DeleteRoot_def n delete_node_def h5_def h3_def h2_def h1_def)
      have Tl: "tree_at h5 (c_of nd 0) l"
        using tl al d by (simp add: h5_def h3_def h2_def h1_def tree_at_update)
      have Tr: "tree_at h5 (Some ra) r'"
        using T1 d by (simp add: h5_def h3_def h2_def h1_def tree_at_update)
      have T: "tree_at h5 (Some ca) (Node l (ca, km, vm) r')"
        using Tl Tr c d len la by (simp add: h5_def h3_def h2_def h1_def)
      have "cell h5 a = None" "length h5 = length h"
        using la by (simp_all add: h5_def h3_def h2_def h1_def)
      moreover have "\<forall>b. b \<notin> set (addrs (Node l (a, k, v) r)) \<longrightarrow> cell h5 b = cell h b"
        using c(6) by (auto simp: h5_def h3_def h2_def h1_def ar')
      ultimately show ?thesis using run T rlN Node z s m by simp
    qed
  qed
qed

section \<open>The first pair with a key\<close>

text \<open>
  In a tree with sorted keys where no node with the key \<open>k\<close> has the key \<open>k\<close> in its left
  subtree, the search for \<open>k\<close> stops at the first node with the key \<open>k\<close> in in-order.
  Insertion, the rotations of a search and the deletion of a root with another key keep
  both the property and the first pair.
\<close>

lemma find_append:
  "List.find P (xs @ ys) = (case List.find P xs of Some x \<Rightarrow> Some x | None \<Rightarrow> List.find P ys)"
  by (induction xs) auto

lemma first_pair_Leaf [simp]: "first_pair k Leaf = None"
  by (simp add: first_pair_def pairs_def)

lemma first_pair_Node [simp]:
  "first_pair k (Node l (a, x, v) r) =
     (case first_pair k l of
        Some e \<Rightarrow> Some e
      | None \<Rightarrow> if x = k then Some (x, v) else first_pair k r)"
  by (auto simp: first_pair_def pairs_def find_append split: option.splits)

lemma first_pair_None: "first_pair k t = None \<longleftrightarrow> k \<notin> set (keys t)"
  by (force simp: first_pair_def find_None_iff keys_def pairs_def)

lemma first_pair_inorder: "inorder t' = inorder t \<Longrightarrow> first_pair k t' = first_pair k t"
  by (simp add: first_pair_def pairs_def)

lemma first_pair_without:
  assumes "inorder t = xs @ (a, k', v') # ys" "inorder t' = xs @ ys" "k' \<noteq> k"
  shows "first_pair k t' = first_pair k t"
  using assms by (auto simp: first_pair_def pairs_def find_append split: option.splits)

lemma first_pair_ins:
  "sorted (keys t) \<Longrightarrow>
   first_pair k (ins e t) =
     (case first_pair k t of
        Some x \<Rightarrow> Some x
      | None \<Rightarrow> if fst (snd e) = k then Some (snd e) else None)"
proof (induction t)
  case Leaf
  obtain b k' v' where e: "e = (b, k', v')" by (cases e)
  show ?case by (simp add: e)
next
  case (Node l x r)
  obtain a y w where x: "x = (a, y, w)" by (cases x)
  from Node.prems have sl: "sorted (keys l)" and sr: "sorted (keys r)"
    and ge: "\<forall>z\<in>set (keys r). y \<le> z"
    by (auto simp: x sorted_append)
  show ?case
  proof (cases "y \<le> fst (snd e)")
    case True
    with Node.IH(2)[OF sr] show ?thesis
      by (simp add: x split: option.splits)
  next
    case False
    then have "fst (snd e) = k \<longrightarrow> y \<noteq> k \<and> k \<notin> set (keys r)"
      using ge by auto
    then have "fst (snd e) = k \<longrightarrow> y \<noteq> k \<and> first_pair k r = None"
      by (simp add: first_pair_None)
    with False Node.IH(1)[OF sl] show ?thesis
      by (auto simp: x split: option.splits)
  qed
qed

lemma no_left_absent: "k \<notin> set (keys t) \<Longrightarrow> no_left k t"
proof (induction t)
  case Leaf
  then show ?case by simp
next
  case (Node l x r)
  obtain a y w where x: "x = (a, y, w)" by (cases x)
  from Node show ?case by (simp add: x)
qed

lemma no_left_ins: "no_left k t \<Longrightarrow> no_left k (ins e t)"
proof (induction t)
  case Leaf
  obtain b k' v' where e: "e = (b, k', v')" by (cases e)
  show ?case by (simp add: e)
next
  case (Node l x r)
  obtain a y w where x: "x = (a, y, w)" by (cases x)
  from Node show ?case
    by (auto simp: x set_keys_ins)
qed

lemma no_left_to_root:
  "sorted (keys t) \<Longrightarrow> no_left k t \<Longrightarrow> to_root k' t = Some t' \<Longrightarrow> no_left k t'"
proof (induction t arbitrary: t')
  case Leaf
  then show ?case by simp
next
  case (Node l x r)
  obtain a y w where x: "x = (a, y, w)" by (cases x)
  from Node.prems(1) have sl: "sorted (keys l)" and sr: "sorted (keys r)"
    and le: "\<forall>z\<in>set (keys l). z \<le> y"
    by (auto simp: x sorted_append)
  from Node.prems(2) have nl: "no_left k l" and nr: "no_left k r"
    and yk: "y = k \<longrightarrow> k \<notin> set (keys l)"
    by (simp_all add: x)
  show ?case
  proof (cases "k' = y")
    case True
    with Node.prems(3) have "t' = Node l (a, y, w) r" by (simp add: x)
    with Node.prems(2) show ?thesis by (simp add: x)
  next
    case False
    show ?thesis
    proof (cases "y < k'")
      case True
      with False Node.prems(3) obtain rl z rr where r: "to_root k' r = Some (Node rl z rr)"
        and t': "t' = Node (Node l (a, y, w) rl) z rr"
        by (auto simp: x split: option.splits tree.splits)
      obtain za zv where z: "z = (za, k', zv)"
        using to_root_Node[OF r] by auto
      from Node.IH(2)[OF sr nr r] have n: "no_left k (Node rl z rr)" .
      have "k' = k \<longrightarrow> k \<notin> set (keys l)"
        using le True by auto
      with n nl yk True show ?thesis
        by (auto simp: t' z)
    next
      case lt: False
      with False Node.prems(3) obtain ll z lr where l: "to_root k' l = Some (Node ll z lr)"
        and t': "t' = Node ll z (Node lr (a, y, w) r)"
        by (auto simp: x split: option.splits tree.splits)
      obtain za zv where z: "z = (za, k', zv)"
        using to_root_Node[OF l] by auto
      from Node.IH(1)[OF sl nl l] have n: "no_left k (Node ll z lr)" .
      have "keys l = keys ll @ k' # keys lr"
        using to_root_keys[OF l] by (simp add: z)
      with n nr yk show ?thesis
        by (auto simp: t' z)
    qed
  qed
qed

lemma no_left_split_left:
  "no_left k (Node l x r) \<Longrightarrow> split_left l x r = (m, t') \<Longrightarrow> no_left k t'"
proof (induction l arbitrary: x r m t')
  case Leaf
  obtain a y w where x: "x = (a, y, w)" by (cases x)
  from Leaf show ?case by (simp add: x)
next
  case (Node ll z lr)
  obtain a y w where x: "x = (a, y, w)" by (cases x)
  obtain za zk zv where z: "z = (za, zk, zv)" by (cases z)
  obtain m1 l1 where s: "split_left ll z lr = (m1, l1)" by (cases "split_left ll z lr")
  with Node.prems(2) have t': "t' = Node l1 x r" by simp
  from Node.prems(1) have "no_left k (Node ll z lr)" by (simp add: x)
  from Node.IH(1)[OF this s] have n1: "no_left k l1" .
  have "keys (Node ll z lr) = (case m1 of (a, k, v) \<Rightarrow> k) # keys l1"
    using split_left_inorder[OF s] unfolding keys_def by simp
  then have "set (keys l1) \<subseteq> set (keys (Node ll z lr))"
    by (metis set_subset_Cons)
  with n1 Node.prems(1) show ?case
    by (auto simp: t' x)
qed

lemma no_left_delete_root:
  assumes "sorted (keys (Node l (a, x, v) r))" "x \<noteq> k" "no_left k (Node l (a, x, v) r)"
  shows "no_left k (delete_root (Node l (a, x, v) r))"
proof (cases r)
  case Leaf
  with assms(3) show ?thesis by simp
next
  case (Node rl y rr)
  obtain m r' where s: "split_left rl y rr = (m, r')" by (cases "split_left rl y rr")
  obtain ma mk mv where m: "m = (ma, mk, mv)" by (cases m)
  from assms(3) have nl: "no_left k l" and nr: "no_left k (Node rl y rr)"
    by (simp_all add: Node)
  from no_left_split_left[OF nr s] have n': "no_left k r'" .
  have "mk \<in> set (keys r)"
    using split_left_inorder[OF s] by (force simp: keys_def Node m)
  with assms(1) have "x \<le> mk" and "\<forall>z\<in>set (keys l). z \<le> x"
    by (auto simp: sorted_append)
  with assms(2) have "mk = k \<longrightarrow> k \<notin> set (keys l)"
    by auto
  with nl n' s show ?thesis
    by (simp add: Node m)
qed

lemma search_first:
  "sorted (keys t) \<Longrightarrow> no_left k t \<Longrightarrow> search k t = Some (a, k, w) \<Longrightarrow>
   first_pair k t = Some (k, w)"
proof (induction t)
  case Leaf
  then show ?case by simp
next
  case (Node l x r)
  obtain b y u where x: "x = (b, y, u)" by (cases x)
  from Node.prems(1) have sl: "sorted (keys l)" and sr: "sorted (keys r)"
    and le: "\<forall>z\<in>set (keys l). z \<le> y" and ge: "\<forall>z\<in>set (keys r). y \<le> z"
    by (auto simp: x sorted_append)
  from Node.prems(2) have nl: "no_left k l" and nr: "no_left k r"
    and yk: "y = k \<longrightarrow> k \<notin> set (keys l)"
    by (simp_all add: x)
  show ?case
  proof (cases "k = y")
    case True
    with yk have "first_pair k l = None" by (simp add: first_pair_None)
    with True Node.prems(3) show ?thesis by (simp add: x)
  next
    case False
    show ?thesis
    proof (cases "y < k")
      case True
      with le have "first_pair k l = None" by (auto simp: first_pair_None)
      with True False Node.prems(3) Node.IH(2)[OF sr nr] show ?thesis
        by (simp add: x)
    next
      case lt: False
      with False Node.prems(3) have "search k l = Some (a, k, w)" by (simp add: x)
      from Node.IH(1)[OF sl nl this] lt False show ?thesis by (simp add: x)
    qed
  qed
qed

section \<open>Removal through the handle\<close>

lemma remove_miss:
  assumes "tree_at h (tree_of s) t" "k \<notin> set (keys t)" "height t \<le> f"
  shows "remove iv f h s k = Inr (iv, h, s)"
  using Find_miss[OF assms] by (simp add: remove_def)

lemma remove_hit:
  assumes "valid h s t" "k \<in> set (keys t)" "size t \<le> f"
  shows "\<exists>a v xs ys h' s' t'.
           remove iv f h s k = Inr (v, h', s') \<and>
           inorder t = xs @ (a, k, v) # ys \<and> inorder t' = xs @ ys \<and>
           valid h' s' t' \<and> cell h' a = None \<and> length h' = length h \<and>
           (\<forall>b. b \<noteq> a \<longrightarrow>
              map_option (\<lambda>nd. (k_of nd, v_of nd)) (cell h' b) =
              map_option (\<lambda>nd. (k_of nd, v_of nd)) (cell h b)) \<and>
           (\<forall>k0. k0 \<noteq> k \<longrightarrow> no_left k0 t \<longrightarrow> no_left k0 t') \<and>
           length_of s' = length_of s - 1"
proof -
  from assms(1) have t: "tree_at h (tree_of s) t" "distinct (addrs t)" "sorted (keys t)"
    by (simp_all add: valid_def)
  have hf: "height t \<le> f" using assms(3) height_le_size[of t] by simp
  from Find_hit[OF t assms(2) hf] obtain a v l r h1 where
    F: "Find f h (tree_of s) k = Inr (Some a, Some a, h1)" and
    R: "to_root k t = Some (Node l (a, k, v) r)" and
    T: "tree_at h1 (Some a) (Node l (a, k, v) r)" and
    len1: "length h1 = length h" and
    fr1: "\<forall>b. b \<notin> set (addrs t) \<longrightarrow> cell h1 b = cell h b"
    by blast
  have io: "inorder t = inorder l @ (a, k, v) # inorder r"
    using to_root_inorder[OF R] by simp
  then have ad: "addrs t = addrs l @ a # addrs r" and ks: "keys t = keys l @ k # keys r"
    unfolding addrs_def keys_def by simp_all
  have d1: "distinct (addrs (Node l (a, k, v) r))" using t(2) ad by simp
  have "size t = size l + size r + 1"
    using arg_cong[OF io, of length] by simp
  with assms(3) height_le_size[of r] have hr: "height r \<le> f" by simp
  let ?t2 = "delete_root (Node l (a, k, v) r)"
  from DeleteRoot_spec[OF T d1 hr] obtain h2 where
    D: "DeleteRoot f h1 (Some a) = Inr (root_ptr ?t2, h2)" and
    T2: "tree_at h2 (root_ptr ?t2) ?t2" and
    c2: "cell h2 a = None" "length h2 = length h1" and
    fr2: "\<forall>b. b \<notin> set (addrs (Node l (a, k, v) r)) \<longrightarrow> cell h2 b = cell h1 b"
    by blast
  from T obtain nd where nd: "cell h1 a = Some nd" "v_of nd = v"
    by (auto split: option.splits)
  let ?s' = "s\<lparr>tree_of := root_ptr ?t2, length_of := length_of s - 1\<rparr>"
  have run: "remove iv f h s k = Inr (v, h2, ?s')"
    using F nd D by (simp add: remove_def)
  have io2: "inorder ?t2 = inorder l @ inorder r"
    by (rule delete_root_inorder)
  then have ad2: "addrs ?t2 = addrs l @ addrs r" and "keys ?t2 = keys l @ keys r"
    unfolding addrs_def keys_def by simp_all
  with t(2,3) ad ks have "distinct (addrs ?t2)" "sorted (keys ?t2)"
    by (auto simp: sorted_append)
  with T2 have V: "valid h2 ?s' ?t2" by (simp add: valid_def)
  have others: "\<forall>b. b \<noteq> a \<longrightarrow>
      map_option (\<lambda>nd. (k_of nd, v_of nd)) (cell h2 b) =
      map_option (\<lambda>nd. (k_of nd, v_of nd)) (cell h b)"
  proof (intro allI impI)
    fix b assume ba: "b \<noteq> a"
    show "map_option (\<lambda>nd. (k_of nd, v_of nd)) (cell h2 b) =
          map_option (\<lambda>nd. (k_of nd, v_of nd)) (cell h b)"
    proof (cases "b \<in> set (addrs t)")
      case True
      then obtain kb vb where m: "(b, kb, vb) \<in> set (inorder t)"
        unfolding addrs_def by force
      with io io2 ba have m2: "(b, kb, vb) \<in> set (inorder ?t2)" by auto
      from tree_at_cell[OF t(1), of b kb vb] m
      obtain n1 where "cell h b = Some n1" "k_of n1 = kb" "v_of n1 = vb" by auto
      moreover from tree_at_cell[OF T2, of b kb vb] m2
      obtain n2 where "cell h2 b = Some n2" "k_of n2 = kb" "v_of n2 = vb" by auto
      ultimately show ?thesis by simp
    next
      case False
      with fr1 fr2 ad show ?thesis by simp
    qed
  qed
  have nl: "\<forall>k0. k0 \<noteq> k \<longrightarrow> no_left k0 t \<longrightarrow> no_left k0 ?t2"
  proof (intro allI impI)
    fix k0 assume k0: "k0 \<noteq> k" "no_left k0 t"
    have "no_left k0 (Node l (a, k, v) r)"
      using no_left_to_root[OF t(3) k0(2) R] .
    moreover have "sorted (keys (Node l (a, k, v) r))"
      using t(3) ks by simp
    ultimately show "no_left k0 ?t2"
      using k0(1) by (intro no_left_delete_root) auto
  qed
  from run io io2 V c2 len1 others nl show ?thesis
    by (intro exI[of _ a] exI[of _ v] exI[of _ "inorder l"] exI[of _ "inorder r"]
        exI[of _ h2] exI[of _ ?s'] exI[of _ ?t2]) simp
qed

section \<open>Valid handles\<close>

lemma find_h_valid:
  assumes "valid h s t" "size t \<le> f"
  shows "\<exists>v h' s' t'. find_h iv f h s k = Inr (v, h', s') \<and> valid h' s' t' \<and>
           inorder t' = inorder t \<and> length_of s' = length_of s \<and>
           (\<forall>k0. no_left k0 t \<longrightarrow> no_left k0 t') \<and>
           (if k \<in> set (keys t) then \<exists>a. search k t = Some (a, k, v) else v = iv)"
proof -
  from assms(1) have t: "tree_at h (tree_of s) t" "distinct (addrs t)" "sorted (keys t)"
    by (simp_all add: valid_def)
  have hf: "height t \<le> f" using assms(2) height_le_size[of t] by simp
  show ?thesis
  proof (cases "k \<in> set (keys t)")
    case True
    from find_h_hit[OF t True hf, of iv "length_of s"] obtain a v l r h' where
      F: "find_h iv f h \<lparr>tree_of = tree_of s, length_of = length_of s\<rparr> k =
            Inr (v, h', \<lparr>tree_of = Some a, length_of = length_of s\<rparr>)" and
      R: "to_root k t = Some (Node l (a, k, v) r)" and
      T: "tree_at h' (Some a) (Node l (a, k, v) r)"
      by blast
    have io: "inorder (Node l (a, k, v) r) = inorder t"
      using R by (rule to_root_inorder)
    then have "addrs (Node l (a, k, v) r) = addrs t" "keys (Node l (a, k, v) r) = keys t"
      unfolding addrs_def keys_def by simp_all
    with T t have V: "valid h' \<lparr>tree_of = Some a, length_of = length_of s\<rparr> (Node l (a, k, v) r)"
      unfolding valid_def by simp
    have "\<exists>a. search k t = Some (a, k, v)"
      using to_root_search[OF R] by blast
    moreover have "\<forall>k0. no_left k0 t \<longrightarrow> no_left k0 (Node l (a, k, v) r)"
      using no_left_to_root[OF t(3) _ R] by blast
    moreover have eq: "\<lparr>tree_of = tree_of s, length_of = length_of s\<rparr> = s"
      by simp
    note F' = F[unfolded eq]
    ultimately show ?thesis using F' V io True
      by (intro exI[of _ v] exI[of _ h'] exI[of _ "\<lparr>tree_of = Some a, length_of = length_of s\<rparr>"]
          exI[of _ "Node l (a, k, v) r"]) simp
  next
    case False
    from Find_miss[OF t(1) False hf] have "find_h iv f h s k = Inr (iv, h, s)"
      by (simp add: find_h_def)
    with assms(1) False show ?thesis by auto
  qed
qed

lemma run_call_valid:
  assumes "valid h s t" "size t < f"
  shows "\<exists>h' s' t'. run_call iv f h s c = Inr (h', s') \<and> valid h' s' t' \<and>
           size t' \<le> Suc (size t) \<and>
           (c \<noteq> CallRemove k \<longrightarrow> no_left k t \<longrightarrow>
              no_left k t' \<and> (\<forall>e. first_pair k t = Some e \<longrightarrow> first_pair k t' = Some e))"
proof (cases c)
  case (CallAdd k' v')
  from assms(1) have st: "sorted (keys t)" by (simp add: valid_def)
  from add_valid[OF assms(1,2), of k' v'] obtain h' s' where
    "add f h s k' v' = Inr (h', s')" "valid h' s' (ins (length h, k', v') t)"
    by blast
  with CallAdd show ?thesis
    by (intro exI[of _ h'] exI[of _ s'] exI[of _ "ins (length h, k', v') t"])
      (simp add: no_left_ins first_pair_ins[OF st])
next
  case (CallFind k')
  from assms(2) have "size t \<le> f" by simp
  from find_h_valid[OF assms(1) this, of iv k'] obtain v h' s' t' where
    F: "find_h iv f h s k' = Inr (v, h', s')" "valid h' s' t'" "inorder t' = inorder t"
      "\<forall>k0. no_left k0 t \<longrightarrow> no_left k0 t'"
    by blast
  from F(3) have "size t' = size t" by (rule size_inorder_eq)
  with F CallFind show ?thesis
    by (intro exI[of _ h'] exI[of _ s'] exI[of _ t'])
      (simp add: first_pair_inorder[OF F(3)])
next
  case (CallRemove k')
  from assms(2) have sf: "size t \<le> f" by simp
  show ?thesis
  proof (cases "k' \<in> set (keys t)")
    case True
    from remove_hit[OF assms(1) True sf, of iv] obtain a v xs ys h' s' t' where
      R: "remove iv f h s k' = Inr (v, h', s')" "inorder t = xs @ (a, k', v) # ys"
        "inorder t' = xs @ ys" "valid h' s' t'"
        "\<forall>k0. k0 \<noteq> k' \<longrightarrow> no_left k0 t \<longrightarrow> no_left k0 t'"
      by blast
    have sz: "size t' \<le> Suc (size t)"
      using arg_cong[OF R(2), of length] arg_cong[OF R(3), of length] by simp
    have "k' \<noteq> k \<longrightarrow> first_pair k t' = first_pair k t"
      using first_pair_without[OF R(2,3)] by blast
    with R sz CallRemove show ?thesis
      by (intro exI[of _ h'] exI[of _ s'] exI[of _ t']) auto
  next
    case False
    from assms(1) have "tree_at h (tree_of s) t" by (simp add: valid_def)
    from remove_miss[OF this False, of f iv] sf height_le_size[of t]
    have "remove iv f h s k' = Inr (iv, h, s)" by simp
    with assms(1) CallRemove show ?thesis
      by (intro exI[of _ h] exI[of _ s] exI[of _ t]) simp
  qed
qed

lemma run_calls_valid:
  assumes "valid h s t" "size t + length cs \<le> f"
  shows "\<exists>h' s' t'. run_calls iv f h s cs = Inr (h', s') \<and> valid h' s' t' \<and>
           size t' \<le> size t + length cs \<and>
           ((\<forall>c \<in> set cs. c \<noteq> CallRemove k) \<longrightarrow> no_left k t \<longrightarrow>
              no_left k t' \<and> (\<forall>e. first_pair k t = Some e \<longrightarrow> first_pair k t' = Some e))"
  using assms
proof (induction cs arbitrary: h s t)
  case Nil
  then show ?case by auto
next
  case (Cons c cs)
  from Cons.prems have "size t < f" by simp
  from run_call_valid[OF Cons.prems(1) this, of iv c k] obtain h1 s1 t1 where
    C: "run_call iv f h s c = Inr (h1, s1)" "valid h1 s1 t1" "size t1 \<le> Suc (size t)"
      "c \<noteq> CallRemove k \<longrightarrow> no_left k t \<longrightarrow>
         no_left k t1 \<and> (\<forall>e. first_pair k t = Some e \<longrightarrow> first_pair k t1 = Some e)"
    by blast
  from Cons.prems C(3) have "size t1 + length cs \<le> f" by simp
  from Cons.IH[OF C(2) this] obtain h' s' t' where
    R: "run_calls iv f h1 s1 cs = Inr (h', s')" "valid h' s' t'"
      "size t' \<le> size t1 + length cs"
      "(\<forall>c \<in> set cs. c \<noteq> CallRemove k) \<longrightarrow> no_left k t1 \<longrightarrow>
         no_left k t' \<and> (\<forall>e. first_pair k t1 = Some e \<longrightarrow> first_pair k t' = Some e)"
    by blast
  have "run_calls iv f h s (c # cs) = Inr (h', s')"
    using C(1) R(1) by simp
  moreover have "size t' \<le> size t + length (c # cs)"
    using R(3) C(3) by simp
  ultimately show ?case using R(2,4) C(4) by auto
qed

text \<open>Every handle reached from the empty one by calls of the interface is valid.\<close>

lemma run_calls_from_empty:
  assumes "length cs \<le> f"
  shows "\<exists>h' s' t'. run_calls iv f h SplayTree cs = Inr (h', s') \<and> valid h' s' t'"
proof -
  have "valid h SplayTree (Leaf :: (nat \<times> 'a \<times> 'b) tree)"
    by (simp add: valid_def SplayTree_def)
  moreover have "size (Leaf :: (nat \<times> 'a \<times> 'b) tree) + length cs \<le> f"
    using assms by simp
  ultimately show ?thesis
    using run_calls_valid[of h SplayTree "Leaf :: (nat \<times> 'a \<times> 'b) tree" cs f iv]
    by blast
qed

section \<open>The helper of the standalone class\<close>

lemma Find_up_ptr: "Find_up h n p i = Inr (c, p', h') \<Longrightarrow> c \<noteq> None"
  by (auto simp: Find_up_def wr_c_def bnd_eq_Inr deref_Inr split: option.splits)

lemma Node_Find_sub_rel:
  "(case Find_sub f h n p k i of
      Inl e \<Rightarrow> Node_Find_sub f h n p k i False = Inl e
    | Inr (c, p', h') \<Rightarrow>
        if c = None then \<exists>c'. Node_Find_sub f h n p k i False = Inr (c', p', False, h')
        else Node_Find_sub f h n p k i False = Inr (c, p', True, h'))"
proof (induction f arbitrary: h n p i)
  case 0
  then show ?case by simp
next
  case (Suc f)
  show ?case
  proof (cases n)
    case None
    then show ?thesis by simp
  next
    case (Some a)
    show ?thesis
    proof (cases "deref h n")
      case (Inl e)
      with Some show ?thesis by simp
    next
      case (Inr nd)
      show ?thesis
      proof (cases "k = k_of nd")
        case True
        with Some Inr show ?thesis
          by (cases "Find_up h (Some a) p i") (auto dest: Find_up_ptr)
      next
        case False
        define j :: nat where "j = (if k_of nd < k then 1 else 0)"
        have L: "Find_sub (Suc f) h n p k i =
            bnd (Find_sub f h (c_of nd j) n k j) (\<lambda>(c, n', h').
              if c = None then Inr (None, p, h')
              else bnd (wr_c h' n' (1 - j) c) (\<lambda>h''. Find_up h'' n' p i))"
          using Some Inr False unfolding j_def by (simp add: Let_def)
        have N: "Node_Find_sub (Suc f) h n p k i False =
            bnd (Node_Find_sub f h (c_of nd j) n k j False) (\<lambda>(c, n', r', h').
              if \<not> r' then Inr (n', p, r', h')
              else
                bnd (wr_c h' n' (1 - j) c) (\<lambda>h''.
                bnd (Find_up h'' n' p i) (\<lambda>(c', p', h3).
                  Inr (c', p', r', h3))))"
          using Some Inr False unfolding j_def by (simp add: Let_def)
        note IH = Suc.IH[of h "c_of nd j" n j]
        show ?thesis
        proof (cases "Find_sub f h (c_of nd j) n k j")
          case (Inl e)
          with IH show ?thesis unfolding L N by simp
        next
          case r: (Inr x)
          obtain c1 n1 h1 where x: "x = (c1, n1, h1)" by (cases x)
          show ?thesis
          proof (cases "c1 = None")
            case True
            with IH r x obtain c' where
              "Node_Find_sub f h (c_of nd j) n k j False = Inr (c', n1, False, h1)"
              by auto
            with r x True show ?thesis unfolding L N by simp
          next
            case ne: False
            with IH r x have
              rec: "Node_Find_sub f h (c_of nd j) n k j False = Inr (c1, n1, True, h1)"
              by auto
            show ?thesis
            proof (cases "wr_c h1 n1 (1 - j) c1")
              case (Inl e)
              with r x ne rec show ?thesis unfolding L N by auto
            next
              case w: (Inr h2)
              show ?thesis
              proof (cases "Find_up h2 n1 p i")
                case (Inl e)
                with r x ne rec w show ?thesis unfolding L N by auto
              next
                case u: (Inr y)
                obtain c2 p2 h3 where y: "y = (c2, p2, h3)" by (cases y)
                from u y have "c2 \<noteq> None" by (auto dest: Find_up_ptr)
                with r x ne rec w u y show ?thesis unfolding L N by auto
              qed
            qed
          qed
        qed
      qed
    qed
  qed
qed

lemma Node_Find_eq: "Node_Find f h n k = Find f h n k"
proof (cases n)
  case None
  then show ?thesis by (simp add: Node_Find_def Find_def)
next
  case (Some a)
  show ?thesis
  proof (cases "deref h n")
    case (Inl e)
    with Some show ?thesis by (simp add: Node_Find_def Find_def)
  next
    case (Inr nd)
    show ?thesis
    proof (cases "k = k_of nd")
      case True
      with Some Inr show ?thesis by (simp add: Node_Find_def Find_def)
    next
      case False
      define i :: nat where "i = (if k_of nd < k then 1 else 0)"
      have L: "Find f h n k =
          bnd (Find_sub f h (c_of nd i) n k i) (\<lambda>(c, n', h').
            if c = None then Inr (None, n', h')
            else bnd (wr_c h' n' (1 - i) c) (\<lambda>h''. Inr (n', n', h'')))"
        using Some Inr False unfolding i_def by (simp add: Find_def Let_def)
      have N: "Node_Find f h n k =
          bnd (Node_Find_sub f h (c_of nd i) n k i False) (\<lambda>(c, n', r, h').
            if \<not> r then Inr (None, n', h')
            else bnd (wr_c h' n' (1 - i) c) (\<lambda>h''. Inr (n', n', h'')))"
        using Some Inr False unfolding i_def by (simp add: Node_Find_def Let_def)
      from Node_Find_sub_rel[of f h "c_of nd i" n k i] show ?thesis
        unfolding L N
        by (cases "Find_sub f h (c_of nd i) n k i") (auto split: if_splits)
    qed
  qed
qed

lemma Node_Add_eq: "Node_Add f h n k v = Add f h n k v"
proof (induction f arbitrary: h n)
  case 0
  then show ?case by simp
next
  case (Suc f)
  then show ?case by (cases n) simp_all
qed

lemma Node_DeleteRoot_eq: "Node_DeleteRoot f h n = DeleteRoot f h n"
  by (simp add: Node_DeleteRoot_def DeleteRoot_def)

section \<open>The sample heaps\<close>

lemma ex_tree_at: "tree_at ex_heap (Some 0) ex_tree"
  by (simp add: ex_heap_def ex_tree_def cell_def)

lemma ex_valid: "valid ex_heap ex_handle ex_tree"
  using ex_tree_at by (simp add: valid_def ex_handle_def) (simp add: ex_tree_def)

lemma dup_tree_at: "tree_at dup_heap (Some 0) dup_tree"
  by (simp add: dup_heap_def dup_tree_def cell_def)

section \<open>The key accessors\<close>

text \<open>
  Claim C1. For every handle, \<open>root_key\<close>, \<open>min_key\<close> and \<open>max_key\<close> return the
  \<open>INVALID_K\<close> sentinel exactly when the tree is not empty, and dereference the null
  root pointer when the tree is empty.
\<close>

theorem accessors_inverted:
  "(root_key ik h s = Inr ik \<longleftrightarrow> tree_of s \<noteq> None) \<and>
   (min_key ik f h s = Inr ik \<longleftrightarrow> tree_of s \<noteq> None) \<and>
   (max_key ik f h s = Inr ik \<longleftrightarrow> tree_of s \<noteq> None) \<and>
   (tree_of s = None \<longrightarrow>
      root_key ik h s = Inl NullDeref \<and>
      min_key ik f h s = Inl NullDeref \<and>
      max_key ik f h s = Inl NullDeref)"
  by (cases "tree_of s") (simp_all add: root_key_def min_key_def max_key_def)

theorem accessors_inverted_witness:
  "root_key (255 :: nat) ([] :: (nat, nat) heap) SplayTree = Inl NullDeref \<and>
   min_key (255 :: nat) 3 ([] :: (nat, nat) heap) SplayTree = Inl NullDeref \<and>
   max_key (255 :: nat) 3 ([] :: (nat, nat) heap) SplayTree = Inl NullDeref \<and>
   root_key (255 :: nat) [Some \<lparr>c_0 = None, c_1 = None, k_of = 7, v_of = (0 :: nat)\<rparr>]
     \<lparr>tree_of = Some 0, length_of = 1\<rparr> = Inr 255"
  using accessors_inverted [of "255 :: nat" "[] :: (nat, nat) heap" SplayTree 3]
    accessors_inverted [of "255 :: nat"
      "[Some \<lparr>c_0 = None, c_1 = None, k_of = 7 :: nat, v_of = (0 :: nat)\<rparr>]"
      "\<lparr>tree_of = Some 0, length_of = 1\<rparr>" 3]
  by (simp add: SplayTree_def)

section \<open>Search\<close>

text \<open>
  Claim C2. In a tree with its keys in order that holds the key \<open>k\<close>, \<open>Find\<close> succeeds:
  it returns the node at which the search for \<open>k\<close> stops, and that node is the new
  root, so the key at the root is \<open>k\<close> and \<open>find\<close> returns its value. The new tree comes
  from the old one by single rotations, one for each level of the search path.
\<close>

theorem Find_hit_to_root:
  assumes "tree_at h n t" "distinct (addrs t)" "sorted (keys t)" "k \<in> set (keys t)"
    "height t \<le> f"
  shows "\<exists>a v l r h'.
           Find f h n k = Inr (Some a, Some a, h') \<and>
           search k t = Some (a, k, v) \<and>
           tree_at h' (Some a) (Node l (a, k, v) r) \<and>
           (rot_step ^^ search_depth k t) t (Node l (a, k, v) r) \<and>
           find_h iv f h \<lparr>tree_of = n, length_of = len\<rparr> k =
             Inr (v, h', \<lparr>tree_of = Some a, length_of = len\<rparr>)"
proof -
  from find_h_hit[OF assms, of iv len] obtain a v l r h' where
    F: "find_h iv f h \<lparr>tree_of = n, length_of = len\<rparr> k =
          Inr (v, h', \<lparr>tree_of = Some a, length_of = len\<rparr>)"
      "Find f h n k = Inr (Some a, Some a, h')" and
    R: "to_root k t = Some (Node l (a, k, v) r)" and
    T: "tree_at h' (Some a) (Node l (a, k, v) r)"
    by blast
  from to_root_search[OF R] to_root_rotations[OF R] F T show ?thesis by blast
qed

theorem Find_hit_to_root_witness:
  "\<exists>a v l r h'.
     Find 3 ex_heap (Some 0) 3 = Inr (Some a, Some a, h') \<and>
     search 3 ex_tree = Some (a, 3, v) \<and>
     tree_at h' (Some a) (Node l (a, 3, v) r) \<and>
     (rot_step ^^ search_depth 3 ex_tree) ex_tree (Node l (a, 3, v) r) \<and>
     find_h 0 3 ex_heap \<lparr>tree_of = Some 0, length_of = 4\<rparr> 3 =
       Inr (v, h', \<lparr>tree_of = Some a, length_of = 4\<rparr>)"
  by (rule Find_hit_to_root[OF ex_tree_at]) (simp_all add: ex_tree_def)

text \<open>
  Claim C3. For a key that is not in the tree, \<open>Find\<close> returns null and changes
  neither the root pointer nor any node: the heap after the call is the heap before it.
  \<open>find\<close> then returns \<open>INVALID_V\<close> and leaves the handle as it was.
\<close>

theorem Find_miss_no_effect:
  assumes "tree_at h (tree_of s) t" "k \<notin> set (keys t)" "height t \<le> f"
  shows "Find f h (tree_of s) k = Inr (None, tree_of s, h) \<and>
         find_h iv f h s k = Inr (iv, h, s)"
  using Find_miss[OF assms] by (simp add: find_h_def)

theorem Find_miss_no_effect_witness:
  "Find 3 ex_heap (Some 0) 4 = Inr (None, Some 0, ex_heap) \<and>
   find_h 0 3 ex_heap ex_handle 4 = Inr (0, ex_heap, ex_handle)"
  using Find_miss_no_effect[of ex_heap ex_handle ex_tree 4 3 0] ex_tree_at
  by (simp add: ex_handle_def) (simp add: ex_tree_def)

text \<open>
  Claim C10. A successful \<open>Find\<close> neither creates nor deletes a node and changes no key
  and no value: the heap keeps its size, every address holds the same key and value as
  before, and the tree under the new root has the same (key, value) pairs, at the same
  addresses.
\<close>

theorem Find_hit_same_nodes:
  assumes "tree_at h n t" "distinct (addrs t)" "height t \<le> f"
    "Find f h n k = Inr (Some a, n', h')"
  shows "same_nodes h h' \<and>
         (\<exists>t'. tree_at h' n' t' \<and> mset (pairs t') = mset (pairs t) \<and>
                mset (addrs t') = mset (addrs t))"
proof -
  from Find_spec[OF assms(1-3), of k] assms(4) obtain t' where
    t': "to_root k t = Some t'" and T: "tree_at h' n' t'"
    by (cases "to_root k t") auto
  from to_root_inorder[OF t'] have "mset (pairs t') = mset (pairs t)" "mset (addrs t') = mset (addrs t)"
    by (simp_all add: pairs_def addrs_def)
  with T Find_same_nodes[OF assms(4)] show ?thesis by blast
qed

theorem Find_hit_same_nodes_witness:
  "\<exists>a n' h'. Find 3 ex_heap (Some 0) 3 = Inr (Some a, n', h') \<and> same_nodes ex_heap h' \<and>
     (\<exists>t'. tree_at h' n' t' \<and> mset (pairs t') = mset (pairs ex_tree) \<and>
            mset (addrs t') = mset (addrs ex_tree))"
proof -
  have d: "distinct (addrs ex_tree)" "height ex_tree \<le> 3"
    by (simp_all add: ex_tree_def)
  have F: "Find 3 ex_heap (Some 0) 3 =
      Inr (Some 3, Some 3,
        [Some \<lparr>c_0 = None, c_1 = Some 2, k_of = 5, v_of = 50\<rparr>,
         Some \<lparr>c_0 = None, c_1 = None, k_of = 2, v_of = 20\<rparr>,
         Some \<lparr>c_0 = None, c_1 = None, k_of = 8, v_of = 80\<rparr>,
         Some \<lparr>c_0 = Some 1, c_1 = Some 0, k_of = 3, v_of = 30\<rparr>])"
    by (simp add: Find_def ex_heap_def cell_def Find_up_def numeral_3_eq_3 wr_c_def deref_def)
  from Find_hit_same_nodes[OF ex_tree_at d F] F show ?thesis by blast
qed

section \<open>Insertion\<close>

text \<open>
  Claim C4, as the specification states it, fails: after adding the key 5 twice the
  second node is the right child of the first, and its key is not greater.
\<close>

theorem Adds_spec_order_counterexample:
  "Adds 2 [] None [(5, 1), (5, 2)] = Inr (Some 0, dup_heap) \<and>
   tree_at dup_heap (Some 0) dup_tree \<and> \<not> spec_ordered dup_tree"
  using dup_tree_at
  by (simp add: numeral_2_eq_2 new_node_def dup_heap_def cell_def)
    (simp add: dup_tree_def)

text \<open>
  Claim C4, amended. In every tree built by a sequence of \<open>Add\<close> calls from the null
  pointer, every key in the left subtree of a node is less than the node's key and
  every key in its right subtree is greater or equal: an equal key goes to the right.
\<close>

theorem Adds_ordered:
  assumes "length kvs \<le> f"
  shows "\<exists>n h' t. Adds f h None kvs = Inr (n, h') \<and> tree_at h' n t \<and>
           distinct (addrs t) \<and> ordered t \<and> mset (pairs t) = mset kvs"
proof -
  have "tree_at h None Leaf" "distinct (addrs (Leaf :: (nat \<times> 'a \<times> 'b) tree))"
    "size (Leaf :: (nat \<times> 'a \<times> 'b) tree) + length kvs \<le> f"
    using assms by simp_all
  from Adds_spec[OF this] show ?thesis
    by (auto simp: pairs_def)
qed

theorem Adds_ordered_witness:
  "\<exists>n h' t. Adds 2 ([] :: (nat, nat) heap) None [(5, 1), (5, 2)] = Inr (n, h') \<and>
     tree_at h' n t \<and> distinct (addrs t) \<and> ordered t \<and> mset (pairs t) = mset [(5, 1), (5, 2)]"
  by (rule Adds_ordered) simp

text \<open>
  Claim C5. After any sequence of \<open>add\<close> calls on an empty handle, the in-order
  traversal of the tree yields the inserted keys in non-decreasing order.
\<close>

theorem add_all_sorted:
  assumes "length kvs \<le> f"
  shows "\<exists>h' s' t. add_all f h SplayTree kvs = Inr (h', s') \<and>
           tree_at h' (tree_of s') t \<and> sorted (keys t) \<and>
           mset (keys t) = mset (map fst kvs)"
proof -
  have "tree_at h None Leaf" "distinct (addrs (Leaf :: (nat \<times> 'a \<times> 'b) tree))"
    "size (Leaf :: (nat \<times> 'a \<times> 'b) tree) + length kvs \<le> f"
    using assms by simp_all
  from Adds_spec[OF this] obtain n' h' t' where
    A: "Adds f h None kvs = Inr (n', h')" "tree_at h' n' t'" "sorted (keys t')"
      "mset (pairs t') = mset kvs"
    by (auto simp: pairs_def)
  have "mset (keys t') = mset (map fst kvs)"
    unfolding keys_pairs using A(4) by (metis mset_map)
  with A show ?thesis
    by (auto simp: add_all_Adds SplayTree_def)
qed

theorem add_all_sorted_witness:
  "\<exists>h' s' t. add_all 3 ([] :: (nat, nat) heap) SplayTree [(7, 0), (3, 1), (7, 2)] = Inr (h', s') \<and>
     tree_at h' (tree_of s') t \<and> sorted (keys t) \<and>
     mset (keys t) = mset (map fst [(7, 0), (3, 1), (7 :: nat, 2 :: nat)])"
  by (rule add_all_sorted) simp

section \<open>Deletion\<close>

text \<open>
  Claim C7. \<open>DeleteRoot\<close> on a non-empty tree deletes the root node and nothing else.
  Without a right child the left child is the new root. Otherwise the leftmost node of
  the right subtree is the new root: its right child takes its place under its former
  parent, and it takes over the old left subtree and the rest of the right subtree. The
  in-order sequence was that of the left subtree, the root, and that of the right
  subtree; afterwards it is the same without the root.
\<close>

theorem DeleteRoot_splice:
  assumes "tree_at h n (Node l (a, k, v) r)" "distinct (addrs (Node l (a, k, v) r))"
    "height r \<le> f"
  shows "\<exists>h' t'. DeleteRoot f h n = Inr (root_ptr t', h') \<and> tree_at h' (root_ptr t') t' \<and>
           cell h' a = None \<and>
           (\<forall>b. b \<notin> set (addrs (Node l (a, k, v) r)) \<longrightarrow> cell h' b = cell h b) \<and>
           t' = (case r of
                   Leaf \<Rightarrow> l
                 | Node rl y rr \<Rightarrow> Node l (fst (split_left rl y rr)) (snd (split_left rl y rr))) \<and>
           inorder t' = inorder l @ inorder r"
proof -
  let ?t' = "delete_root (Node l (a, k, v) r)"
  from DeleteRoot_spec[OF assms] obtain h' where
    D: "DeleteRoot f h n = Inr (root_ptr ?t', h')" "tree_at h' (root_ptr ?t') ?t'"
      "cell h' a = None"
      "\<forall>b. b \<notin> set (addrs (Node l (a, k, v) r)) \<longrightarrow> cell h' b = cell h b"
    by blast
  have "?t' = (case r of
                 Leaf \<Rightarrow> l
               | Node rl y rr \<Rightarrow> Node l (fst (split_left rl y rr)) (snd (split_left rl y rr)))"
    by (cases r) (simp_all add: split_def Let_def)
  moreover have "inorder ?t' = inorder l @ inorder r"
    by (rule delete_root_inorder)
  ultimately show ?thesis using D
    by (intro exI[of _ h'] exI[of _ ?t']) simp
qed

theorem DeleteRoot_splice_witness:
  "Find 3 ex_heap (Some 0) 2 = Inr (Some 1, Some 1, ex_heap2) \<and>
   (\<exists>h' t'. DeleteRoot 2 ex_heap2 (Some 1) = Inr (root_ptr t', h') \<and>
      tree_at h' (root_ptr t') t' \<and> cell h' 1 = None \<and>
      (\<forall>b. b \<notin> {1, 3, 0, 2} \<longrightarrow> cell h' b = cell ex_heap2 b) \<and>
      t' = Node Leaf (3, 3, 30) (Node Leaf (0, 5, 50) (Node Leaf (2, 8, 80) Leaf)) \<and>
      inorder t' = [(3, 3, 30), (0, 5, 50), (2, 8, 80)])"
proof -
  have F: "Find 3 ex_heap (Some 0) 2 = Inr (Some 1, Some 1, ex_heap2)"
    by (simp add: Find_def ex_heap_def ex_heap2_def cell_def Find_up_def numeral_3_eq_3)
  have T: "tree_at ex_heap2 (Some 1)
      (Node Leaf (1, 2, 20) (Node (Node Leaf (3, 3, 30) Leaf) (0, 5, 50) (Node Leaf (2, 8, 80) Leaf)))"
    by (simp add: ex_heap2_def cell_def)
  from DeleteRoot_splice[OF T, of 2] F show ?thesis
    by simp
qed

text \<open>
  Claim C6. On a valid handle, \<open>remove k\<close> for a key in the tree returns the value of a
  node with the key \<open>k\<close>, deletes that node and no other (every other address keeps its
  key and value, or stays free), and takes one off the count;
  when the count is the number of nodes before the call, it is so after it. For a key
  that is not in the tree it returns \<open>INVALID_V\<close> and changes neither the heap nor the
  handle.
\<close>

theorem remove_one_node:
  assumes "valid h s t" "size t \<le> f"
  shows "(k \<in> set (keys t) \<longrightarrow>
            (\<exists>a v xs ys h' s' t'.
               remove iv f h s k = Inr (v, h', s') \<and>
               inorder t = xs @ (a, k, v) # ys \<and> inorder t' = xs @ ys \<and>
               valid h' s' t' \<and> cell h' a = None \<and>
               (\<forall>b. b \<noteq> a \<longrightarrow>
                  map_option (\<lambda>nd. (k_of nd, v_of nd)) (cell h' b) =
                  map_option (\<lambda>nd. (k_of nd, v_of nd)) (cell h b)) \<and>
               size_h s' = size_h s - 1 \<and>
               (unat (size_h s) = size t \<longrightarrow>
                  unat (size_h s') = size t' \<and> Suc (unat (size_h s')) = unat (size_h s)))) \<and>
         (k \<notin> set (keys t) \<longrightarrow> remove iv f h s k = Inr (iv, h, s))"
proof (intro conjI impI)
  assume k: "k \<in> set (keys t)"
  from remove_hit[OF assms(1) k assms(2), of iv] obtain a v xs ys h' s' t' where
    R: "remove iv f h s k = Inr (v, h', s')" "inorder t = xs @ (a, k, v) # ys"
      "inorder t' = xs @ ys" "valid h' s' t'" "cell h' a = None"
      "length_of s' = length_of s - 1"
      "\<forall>b. b \<noteq> a \<longrightarrow>
         map_option (\<lambda>nd. (k_of nd, v_of nd)) (cell h' b) =
         map_option (\<lambda>nd. (k_of nd, v_of nd)) (cell h b)"
    by blast
  have sz: "size t = Suc (size t')"
    using arg_cong[OF R(2), of length] arg_cong[OF R(3), of length] by simp
  have "unat (size_h s) = size t \<longrightarrow>
      unat (size_h s') = size t' \<and> Suc (unat (size_h s')) = unat (size_h s)"
  proof
    assume c: "unat (size_h s) = size t"
    with sz have "length_of s \<noteq> 0" by (auto simp: size_h_def)
    then have "unat (length_of s - 1) = unat (length_of s) - 1"
      by (rule unat_minus_one)
    with c sz R(6) show "unat (size_h s') = size t' \<and> Suc (unat (size_h s')) = unat (size_h s)"
      by (simp add: size_h_def)
  qed
  with R show "\<exists>a v xs ys h' s' t'.
      remove iv f h s k = Inr (v, h', s') \<and>
      inorder t = xs @ (a, k, v) # ys \<and> inorder t' = xs @ ys \<and>
      valid h' s' t' \<and> cell h' a = None \<and>
      (\<forall>b. b \<noteq> a \<longrightarrow>
         map_option (\<lambda>nd. (k_of nd, v_of nd)) (cell h' b) =
         map_option (\<lambda>nd. (k_of nd, v_of nd)) (cell h b)) \<and>
      size_h s' = size_h s - 1 \<and>
      (unat (size_h s) = size t \<longrightarrow>
         unat (size_h s') = size t' \<and> Suc (unat (size_h s')) = unat (size_h s))"
    unfolding size_h_def by blast
next
  assume k: "k \<notin> set (keys t)"
  from assms have "tree_at h (tree_of s) t" "height t \<le> f"
    using height_le_size[of t] by (simp_all add: valid_def)
  from remove_miss[OF this(1) k this(2)] show "remove iv f h s k = Inr (iv, h, s)" .
qed

theorem remove_one_node_witness:
  "(\<exists>a v xs ys h' s' t'.
      remove 0 4 ex_heap ex_handle 2 = Inr (v, h', s') \<and>
      inorder ex_tree = xs @ (a, 2, v) # ys \<and> inorder t' = xs @ ys \<and>
      valid h' s' t' \<and> cell h' a = None \<and>
      (\<forall>b. b \<noteq> a \<longrightarrow>
         map_option (\<lambda>nd. (k_of nd, v_of nd)) (cell h' b) =
         map_option (\<lambda>nd. (k_of nd, v_of nd)) (cell ex_heap b)) \<and>
      size_h s' = size_h ex_handle - 1 \<and>
      unat (size_h s') = size t' \<and> Suc (unat (size_h s')) = unat (size_h ex_handle)) \<and>
   remove 0 4 ex_heap ex_handle 4 = Inr (0, ex_heap, ex_handle)"
proof -
  have s: "size ex_tree \<le> 4" "2 \<in> set (keys ex_tree)" "4 \<notin> set (keys ex_tree)"
    "unat (size_h ex_handle) = size ex_tree"
    by (simp_all add: ex_tree_def ex_handle_def size_h_def)
  from remove_one_node[OF ex_valid s(1), of 2 0] remove_one_node[OF ex_valid s(1), of 4 0] s
  show ?thesis by blast
qed

section \<open>Insertion, then search\<close>

text \<open>
  Claim C8, as the specification states it, fails for a key that is already in the tree
  when it is inserted: after \<open>add(5, 1)\<close> and \<open>add(5, 2)\<close> nothing was removed, and
  \<open>find(5)\<close> returns 1, not the value 2 that was inserted last.
\<close>

theorem add_find_duplicate_counterexample:
  "run_calls 0 2 [] SplayTree [CallAdd 5 1, CallAdd 5 2] =
     Inr (dup_heap, \<lparr>tree_of = Some 0, length_of = 2\<rparr>) \<and>
   find_h 0 2 dup_heap \<lparr>tree_of = Some 0, length_of = 2\<rparr> 5 =
     Inr (1, dup_heap, \<lparr>tree_of = Some 0, length_of = 2\<rparr>) \<and>
   (1 :: nat) \<noteq> 2"
  by (simp add: numeral_2_eq_2 add_def new_node_def SplayTree_def dup_heap_def cell_def
      find_h_def Find_def)

text \<open>
  Claim C8, amended. When a key \<open>k\<close> that is not in the tree is inserted with the value
  \<open>v\<close>, then after any sequence of \<open>add\<close>, \<open>find\<close> and \<open>remove\<close> calls without a
  \<open>remove k\<close>, \<open>find k\<close> returns \<open>v\<close>. The calls may add the key \<open>k\<close> again: a later
  node with the key \<open>k\<close> comes after the first one in in-order, and the search stops at
  the first one.
\<close>

theorem add_then_find:
  assumes "valid h s t" "k \<notin> set (keys t)" "\<forall>c \<in> set cs. c \<noteq> CallRemove k"
    "Suc (size t + length cs) \<le> f"
  shows "\<exists>h1 s1 h2 s2 h3 s3.
           add f h s k v = Inr (h1, s1) \<and>
           run_calls iv f h1 s1 cs = Inr (h2, s2) \<and>
           find_h iv f h2 s2 k = Inr (v, h3, s3)"
proof -
  let ?t1 = "ins (length h, k, v) t"
  from assms(1) have st: "sorted (keys t)" by (simp add: valid_def)
  from assms(4) have "size t < f" by simp
  from add_valid[OF assms(1) this, of k v] obtain h1 s1 where
    A: "add f h s k v = Inr (h1, s1)" "valid h1 s1 ?t1"
    by blast
  have "first_pair k t = None"
    using assms(2) by (simp add: first_pair_None)
  then have f1: "first_pair k ?t1 = Some (k, v)"
    by (simp add: first_pair_ins[OF st])
  have n1: "no_left k ?t1"
    using assms(2) by (intro no_left_ins no_left_absent)
  from assms(4) have "size ?t1 + length cs \<le> f" by simp
  from run_calls_valid[OF A(2) this, of iv k] assms(3) n1 f1 obtain h2 s2 t2 where
    C: "run_calls iv f h1 s1 cs = Inr (h2, s2)" "valid h2 s2 t2"
      "size t2 \<le> size ?t1 + length cs" "no_left k t2" "first_pair k t2 = Some (k, v)"
    by blast
  from C(5) have kin: "k \<in> set (keys t2)"
    using first_pair_None[of k t2] by auto
  from C(2) have s2: "sorted (keys t2)" by (simp add: valid_def)
  from C(3) assms(4) have "size t2 \<le> f" by simp
  from find_h_valid[OF C(2) this, of iv k] kin obtain w h3 s3 a where
    F: "find_h iv f h2 s2 k = Inr (w, h3, s3)" "search k t2 = Some (a, k, w)"
    by auto
  from search_first[OF s2 C(4) F(2)] C(5) have "w = v" by simp
  with A(1) C(1) F(1) show ?thesis by blast
qed

theorem add_then_find_witness:
  "\<exists>h1 s1 h2 s2 h3 s3.
     add 12 ex_heap ex_handle 7 70 = Inr (h1, s1) \<and>
     run_calls 0 12 h1 s1
       [CallAdd 7 71, CallFind 8, CallAdd 7 72, CallFind 3, CallRemove 5, CallAdd 9 90,
        CallFind 9] = Inr (h2, s2) \<and>
     find_h 0 12 h2 s2 7 = Inr (70, h3, s3)"
  by (rule add_then_find[OF ex_valid]) (simp_all add: ex_tree_def)

section \<open>The two copies of the node class\<close>

text \<open>
  Claim C9. The node operations of \<open>SplayTree\<close> and those of the standalone class
  \<open>Node\<close> give the same result on every heap, pointer and key: the same returned
  pointer, the same root pointer and the same heap, or the same fault. The two recursive
  \<open>Find\<close> helpers differ only in how they report a miss: a null pointer in the first,
  the flag left false in the second, which then returns some pointer.
\<close>

theorem node_classes_agree:
  "Node_Find f h n k = Find f h n k \<and>
   Node_Add f h n k v = Add f h n k v \<and>
   Node_DeleteRoot f h n = DeleteRoot f h n \<and>
   (case Find_sub f h n p k i of
      Inl e \<Rightarrow> Node_Find_sub f h n p k i False = Inl e
    | Inr (c, p', h') \<Rightarrow>
        if c = None then \<exists>c'. Node_Find_sub f h n p k i False = Inr (c', p', False, h')
        else Node_Find_sub f h n p k i False = Inr (c, p', True, h'))"
  using Node_Find_eq[of f h n k] Node_Add_eq[of f h n k v] Node_DeleteRoot_eq[of f h n]
    Node_Find_sub_rel[of f h n p k i]
  by blast

theorem node_classes_agree_witness:
  "Node_Find 3 ex_heap (Some 0) 3 = Find 3 ex_heap (Some 0) 3 \<and>
   Node_Find 3 ex_heap (Some 0) 4 = Find 3 ex_heap (Some 0) 4 \<and>
   Find 3 ex_heap (Some 0) 4 = Inr (None, Some 0, ex_heap) \<and>
   Find_sub 3 ex_heap (Some 1) (Some 0) 4 0 = Inr (None, Some 0, ex_heap) \<and>
   Node_Find_sub 3 ex_heap (Some 1) (Some 0) 4 0 False = Inr (Some 1, Some 0, False, ex_heap)"
proof -
  have "Find 3 ex_heap (Some 0) 4 = Inr (None, Some 0, ex_heap)"
    "Find_sub 3 ex_heap (Some 1) (Some 0) 4 0 = Inr (None, Some 0, ex_heap)"
    "Node_Find_sub 3 ex_heap (Some 1) (Some 0) 4 0 False = Inr (Some 1, Some 0, False, ex_heap)"
    by (simp_all add: numeral_3_eq_3 Find_def ex_heap_def cell_def)
  with node_classes_agree[of 3 ex_heap "Some 0" 3] node_classes_agree[of 3 ex_heap "Some 0" 4]
  show ?thesis by simp
qed

end
